theory Spec2Isabelle
  imports Complex_Main "HOL-Library.Product_Lexorder"
begin

section \<open>Data model\<close>

text \<open>
  An edge-node (road segment) is the triple \<open>(u, v, k)\<close> of the original network. Python
  compares such tuples lexicographically, which is the order of nested pairs here.
\<close>

type_synonym enode = "int \<times> int \<times> int"

text \<open>
  The attribute dictionary \<open>EG.nodes[enode]\<close>. A key the code reads with \<open>data.get\<close> is an
  optional field (\<open>None\<close>: the key is absent). The coordinates are read with
  \<open>data["v_x"]\<close>; the graph constructor sets them on every segment, so they are plain fields.
  Numeric attributes hold the number that \<open>float\<close>, \<open>_safe_float\<close> or \<open>_safe_int\<close> returns
  for the stored value. Floats are modelled as reals, \<open>math.inf\<close> by \<open>PInf\<close>: the model
  computes what the program computes where no sum, product or quotient is rounded.
\<close>

record seg =
  orig_u :: "int option"
  orig_v :: "int option"
  travel_time :: "real option"
  traffic_mult :: "real option"
  penalty :: "real option"
  closed :: "bool option"
  bridge :: "string option"
  tunnel :: "string option"
  highway :: "string option"
  maxheight :: "real option"
  maxweight :: "real option"
  lanes :: "int option"
  u_x :: real
  u_y :: real
  v_x :: real
  v_y :: real

datatype pyfloat = Fin real | PInf

fun pf_less :: "pyfloat \<Rightarrow> pyfloat \<Rightarrow> bool" where
  "pf_less (Fin a) (Fin b) = (a < b)"
| "pf_less (Fin a) PInf = True"
| "pf_less PInf _ = False"


text \<open>
  The edge-based graph (a networkx \<open>DiGraph\<close>): the segments in insertion order, their
  attribute dictionaries, the transitions in insertion order and the \<open>turn_cost\<close> attribute of
  a transition (\<open>None\<close>: the attribute is absent).
\<close>

record edge_graph =
  eg_nodes :: "enode list"
  eg_attr :: "enode \<Rightarrow> seg"
  eg_edges :: "(enode \<times> enode) list"
  eg_turn :: "enode \<Rightarrow> enode \<Rightarrow> real option"

definition successors :: "edge_graph \<Rightarrow> enode \<Rightarrow> enode list" where
  "successors EG a = map snd (filter (\<lambda>e. fst e = a) (eg_edges EG))"

definition predecessors :: "edge_graph \<Rightarrow> enode \<Rightarrow> enode list" where
  "predecessors EG b = map fst (filter (\<lambda>e. snd e = b) (eg_edges EG))"

definition has_edge :: "edge_graph \<Rightarrow> enode \<Rightarrow> enode \<Rightarrow> bool" where
  "has_edge EG a b = ((a, b) \<in> set (eg_edges EG))"

text \<open>\<open>float(EG.edges[a, b].get("turn_cost", 0.0))\<close>\<close>

definition turn_cost :: "edge_graph \<Rightarrow> enode \<Rightarrow> enode \<Rightarrow> real" where
  "turn_cost EG a b = (case eg_turn EG a b of None \<Rightarrow> 0 | Some t \<Rightarrow> t)"

datatype py_error = KeyError | AttributeError | TypeError | StopIteration | ValueError | ZeroDivisionError

section \<open>Graph utilities (utils/graph\_utils.py)\<close>

definition enode_travel_time :: "edge_graph \<Rightarrow> enode \<Rightarrow> real" where
  "enode_travel_time EG enode =
     (let data = eg_attr EG enode;
          base_time_travel = (case travel_time data of None \<Rightarrow> 0 | Some t \<Rightarrow> t);
          mult = (case traffic_mult data of None \<Rightarrow> 1 | Some m \<Rightarrow> m);
          pen = (case penalty data of None \<Rightarrow> 0 | Some p \<Rightarrow> p)
      in base_time_travel * mult + pen)"

definition is_enode_closed :: "edge_graph \<Rightarrow> enode \<Rightarrow> bool" where
  "is_enode_closed EG enode = (case closed (eg_attr EG enode) of None \<Rightarrow> False | Some b \<Rightarrow> b)"

definition enodes_from_start :: "edge_graph \<Rightarrow> int \<Rightarrow> enode list" where
  "enodes_from_start EG start_node_id =
     filter (\<lambda>n. orig_u (eg_attr EG n) = Some start_node_id) (eg_nodes EG)"

text \<open>
  \<open>target_nodes\<close> returns a Python set. It is kept as the list of its members in graph order:
  the code tests it for emptiness and membership, filters it, and takes one member of it
  (\<open>next(iter(...))\<close>) as the anchor of the heuristic. Python picks that member by the
  hash order of the set; the model picks the first in graph order, which is the same
  segment when the set has one member.
\<close>

definition target_nodes :: "edge_graph \<Rightarrow> int \<Rightarrow> enode list" where
  "target_nodes EG target_node_id =
     filter (\<lambda>n. orig_v (eg_attr EG n) = Some target_node_id) (eg_nodes EG)"

fun route_tt_from :: "edge_graph \<Rightarrow> real \<Rightarrow> enode \<Rightarrow> enode list \<Rightarrow> real" where
  "route_tt_from EG tot prev_enode [] = tot"
| "route_tt_from EG tot prev_enode (curr_enode # rest) =
     route_tt_from EG
       (tot + (if has_edge EG prev_enode curr_enode then turn_cost EG prev_enode curr_enode else 0)
              + enode_travel_time EG curr_enode)
       curr_enode rest"

text \<open>The argument is \<open>None\<close> or a list; \<open>not route_enodes\<close> holds for \<open>None\<close> and for \<open>[]\<close>.\<close>

fun compute_route_tt :: "edge_graph \<Rightarrow> enode list option \<Rightarrow> pyfloat" where
  "compute_route_tt EG None = PInf"
| "compute_route_tt EG (Some []) = PInf"
| "compute_route_tt EG (Some (e # rest)) = Fin (route_tt_from EG (0 + enode_travel_time EG e) e rest)"

section \<open>Constraint engine (core/constraints.py)\<close>

text \<open>The values of a vehicle profile: numbers, flags and lists of names.\<close>

datatype cval = VNum real | VBool bool | VStrs "string list"

text \<open>
  A constraint dictionary is the list of its items in insertion order; \<open>c_get\<close> is
  \<open>constraints.get(key)\<close>, \<open>c_pop\<close> is \<open>constraints.pop(key, None)\<close>.
\<close>

type_synonym constraints = "(string \<times> cval) list"

definition c_get :: "constraints \<Rightarrow> string \<Rightarrow> cval option" where
  "c_get c key = map_of c key"

definition c_pop :: "string \<Rightarrow> constraints \<Rightarrow> constraints" where
  "c_pop key c = filter (\<lambda>kv. fst kv \<noteq> key) c"

text \<open>Python's truth value of a profile entry; \<open>constraints.get(k)\<close> of an absent key is \<open>None\<close>, which is false.\<close>

fun truthy :: "cval option \<Rightarrow> bool" where
  "truthy None = False"
| "truthy (Some (VNum r)) = (r \<noteq> 0)"
| "truthy (Some (VBool b)) = b"
| "truthy (Some (VStrs l)) = (l \<noteq> [])"

text \<open>A profile entry used as a number: a \<open>bool\<close> is an \<open>int\<close> in Python, a list raises \<open>TypeError\<close>.\<close>

fun num_of :: "cval \<Rightarrow> py_error + real" where
  "num_of (VNum r) = Inr r"
| "num_of (VBool b) = Inr (if b then 1 else 0)"
| "num_of (VStrs l) = Inl TypeError"

text \<open>\<open>x not in constraints[k]\<close>: membership in a list of names; a number is not iterable.\<close>

fun not_in :: "string option \<Rightarrow> cval \<Rightarrow> py_error + bool" where
  "not_in x (VStrs l) = Inr (x \<notin> Some ` set l)"
| "not_in x (VNum r) = Inl TypeError"
| "not_in x (VBool b) = Inl TypeError"

text \<open>\<open>constraints.get("non_preferred_penalty", 10.0)\<close>, as the number added to the penalty.\<close>

definition non_preferred_penalty :: "constraints \<Rightarrow> py_error + real" where
  "non_preferred_penalty c = (case c_get c ''non_preferred_penalty'' of None \<Rightarrow> Inr 10 | Some v \<Rightarrow> num_of v)"

definition VEHICLE_PROFILES :: "(string \<times> constraints) list" where
  "VEHICLE_PROFILES =
     [(''ambulance'',
        [(''max_height'', VNum 3), (''max_weight'', VNum 4), (''min_lanes'', VNum 1),
         (''avoid_closed'', VBool True), (''traffic_multi'', VNum 1),
         (''non_preferred_penalty'', VNum 3),
         (''road_type'', VStrs [''primary'', ''secondary'', ''tertiary'', ''unclassified'',
            ''primary_link'', ''service'', ''residential'', ''busway'', ''secondary_link'',
            ''tertiary_link'', ''living_street'']),
         (''hard_constraints'', VStrs [''max_height'', ''max_weight'', ''max_width'']),
         (''soft_constraints'', VStrs [''min_lanes'', ''road_type'', ''avoid_closed''])]),
      (''fire_engine'',
        [(''max_height'', VNum (7 / 2)), (''max_weight'', VNum 12), (''min_lanes'', VNum 2),
         (''avoid_closed'', VBool True), (''traffic_multi'', VNum 2),
         (''non_preferred_penalty'', VNum 3),
         (''road_type'', VStrs [''primary'', ''secondary'', ''tertiary'', ''unclassified'',
            ''primary_link'', ''service'', ''residential'', ''busway'', ''secondary_link'',
            ''tertiary_link'', ''living_street'']),
         (''hard_constraints'', VStrs [''max_height'', ''max_weight'', ''max_width'']),
         (''soft_constraints'', VStrs [''min_lanes'', ''road_type'', ''avoid_closed''])]),
      (''police_units'',
        [(''max_height'', VNum (5 / 2)), (''max_weight'', VNum (5 / 2)), (''min_lanes'', VNum 1),
         (''avoid_closed'', VBool False), (''traffic_multi'', VNum 2),
         (''non_preferred_penalty'', VNum 3),
         (''road_type'', VStrs [''primary'', ''secondary'', ''tertiary'', ''unclassified'',
            ''primary_link'', ''service'', ''residential'', ''busway'', ''secondary_link'',
            ''tertiary_link'', ''living_street'']),
         (''hard_constraints'', VStrs [''max_height'', ''max_weight'']),
         (''soft_constraints'', VStrs [''min_lanes'', ''road_type'', ''avoid_closed''])])]"

definition is_yes :: "string option \<Rightarrow> bool" where
  "is_yes s = ((case s of None \<Rightarrow> ''no'' | Some x \<Rightarrow> x) \<in> {''yes'', ''true'', ''1''})"

text \<open>
  One hard check \<open>if key in constraints: if value > constraints[key]: return False, inf\<close>.
  The result is \<open>True\<close> when the segment is rejected.
\<close>

definition exceeds :: "constraints \<Rightarrow> string \<Rightarrow> real \<Rightarrow> py_error + bool" where
  "exceeds c key val =
     (case c_get c key of None \<Rightarrow> Inr False
      | Some bnd \<Rightarrow> (case num_of bnd of Inl e \<Rightarrow> Inl e | Inr l \<Rightarrow> Inr (val > l)))"

text \<open>The hard checks of \<open>validate_single_edge\<close>, in the source's order; \<open>True\<close>: rejected.\<close>

definition bridge_rejects :: "seg \<Rightarrow> constraints \<Rightarrow> py_error + bool" where
  "bridge_rejects data c =
     (if is_yes (bridge data) then
        (case exceeds c ''max_height'' (case maxheight data of None \<Rightarrow> 5 | Some h \<Rightarrow> h) of
           Inl e \<Rightarrow> Inl e
         | Inr True \<Rightarrow> Inr True
         | Inr False \<Rightarrow> exceeds c ''max_weight'' (case maxweight data of None \<Rightarrow> 30 | Some w \<Rightarrow> w))
      else Inr False)"

definition tunnel_rejects :: "seg \<Rightarrow> constraints \<Rightarrow> py_error + bool" where
  "tunnel_rejects data c =
     (if is_yes (tunnel data) then
        exceeds c ''max_height'' (case maxheight data of None \<Rightarrow> 9 / 2 | Some h \<Rightarrow> h)
      else Inr False)"

definition lanes_rejects :: "seg \<Rightarrow> constraints \<Rightarrow> py_error + bool" where
  "lanes_rejects data c =
     (case c_get c ''min_lanes'' of None \<Rightarrow> Inr False
      | Some bnd \<Rightarrow> (case num_of bnd of Inl e \<Rightarrow> Inl e
                     | Inr l \<Rightarrow> Inr (real_of_int (case lanes data of None \<Rightarrow> 2 | Some n \<Rightarrow> n) < l)))"

text \<open>\<open>data.get("closed", True)\<close> as a truth value.\<close>

definition closed_or_unknown :: "seg \<Rightarrow> bool" where
  "closed_or_unknown data = (case closed data of None \<Rightarrow> True | Some b \<Rightarrow> b)"

text \<open>One soft check: adds the non-preferred-usage penalty to the running total when it fires.\<close>

definition add_penalty_if :: "bool \<Rightarrow> constraints \<Rightarrow> real \<Rightarrow> py_error + real" where
  "add_penalty_if fires c total_penalty =
     (if fires then (case non_preferred_penalty c of Inl e \<Rightarrow> Inl e | Inr p \<Rightarrow> Inr (total_penalty + p))
      else Inr total_penalty)"

definition allow_list_check :: "string \<Rightarrow> string option \<Rightarrow> constraints \<Rightarrow> real \<Rightarrow> py_error + real" where
  "allow_list_check key val c total_penalty =
     (case c_get c key of None \<Rightarrow> Inr total_penalty
      | Some allowed \<Rightarrow> (case not_in val allowed of Inl e \<Rightarrow> Inl e
                         | Inr fires \<Rightarrow> add_penalty_if fires c total_penalty))"

definition soft_penalty :: "seg \<Rightarrow> constraints \<Rightarrow> py_error + real" where
  "soft_penalty data c =
     (case add_penalty_if (truthy (c_get c ''avoid_closed'') \<and> closed_or_unknown data) c 0 of
        Inl e \<Rightarrow> Inl e
      | Inr p1 \<Rightarrow>
     (case add_penalty_if (c_get c ''avoid_closed'' \<noteq> None \<and> truthy (c_get c ''avoid_closed'') \<and> closed_or_unknown data) c p1 of
        Inl e \<Rightarrow> Inl e
      | Inr p2 \<Rightarrow>
     (case allow_list_check ''tunnel'' (tunnel data) c p2 of
        Inl e \<Rightarrow> Inl e
      | Inr p3 \<Rightarrow>
     (case allow_list_check ''bridge'' (bridge data) c p3 of
        Inl e \<Rightarrow> Inl e
      | Inr p4 \<Rightarrow> allow_list_check ''road_type'' (highway data) c p4))))"

definition validate_single_edge :: "edge_graph \<Rightarrow> enode \<Rightarrow> constraints \<Rightarrow> py_error + (bool \<times> pyfloat)" where
  "validate_single_edge EG enode c =
     (let data = eg_attr EG enode in
      case bridge_rejects data c of Inl e \<Rightarrow> Inl e | Inr True \<Rightarrow> Inr (False, PInf) | Inr False \<Rightarrow>
     (case tunnel_rejects data c of Inl e \<Rightarrow> Inl e | Inr True \<Rightarrow> Inr (False, PInf) | Inr False \<Rightarrow>
     (case lanes_rejects data c of Inl e \<Rightarrow> Inl e | Inr True \<Rightarrow> Inr (False, PInf) | Inr False \<Rightarrow>
     (case soft_penalty data c of Inl e \<Rightarrow> Inl e | Inr p \<Rightarrow> Inr (True, Fin p)))))"

fun validate_route_from :: "edge_graph \<Rightarrow> enode list \<Rightarrow> constraints \<Rightarrow> real \<Rightarrow> py_error + (bool \<times> pyfloat)" where
  "validate_route_from EG [] c total_penalty = Inr (True, Fin total_penalty)"
| "validate_route_from EG (en # rest) c total_penalty =
     (case validate_single_edge EG en c of
        Inl e \<Rightarrow> Inl e
      | Inr (valid, pen) \<Rightarrow>
          (if \<not> valid then Inr (False, PInf)
           else validate_route_from EG rest c
                  (total_penalty + (case pen of Fin p \<Rightarrow> p | PInf \<Rightarrow> 0))))"

fun validate_route :: "edge_graph \<Rightarrow> enode list option \<Rightarrow> constraints \<Rightarrow> py_error + (bool \<times> pyfloat)" where
  "validate_route EG None c = Inr (False, PInf)"
| "validate_route EG (Some []) c = Inr (False, PInf)"
| "validate_route EG (Some (en # rest)) c = validate_route_from EG (en # rest) c 0"

section \<open>Relaxation (core/route\_planner.py)\<close>

definition relax_constraints :: "constraints \<Rightarrow> int \<Rightarrow> constraints" where
  "relax_constraints base level =
     (let c = base in
      if level = 0 then c
      else
        let c1 = (if level \<ge> 1 then c_pop ''traffic_multi'' (c_pop ''road_type'' c) else c);
            c2 = (if level \<ge> 2 then c_pop ''min_lanes'' c1 else c1);
            c3 = (if level \<ge> 3 then filter (\<lambda>kv. fst kv \<in> {''avoid_closed''}) c2 else c2)
        in c3)"

section \<open>Search algorithms (core/search\_algorithms.py)\<close>

text \<open>
  A \<open>heapq\<close> heap is kept as the list of its entries: \<open>heappush\<close> adds an entry and
  \<open>heappop\<close> removes and returns the least entry in Python's tuple order.
\<close>

definition heappush :: "'a list \<Rightarrow> 'a \<Rightarrow> 'a list" where
  "heappush h x = x # h"

fun heappop :: "'a::linorder list \<Rightarrow> ('a \<times> 'a list) option" where
  "heappop [] = None"
| "heappop (x # xs) = (let m = fold min xs x in Some (m, remove1 m (x # xs)))"

text \<open>
  A \<open>while\<close> loop with \<open>break\<close> and \<open>continue\<close>. One pass of the loop, from its test to
  the end of its body, either leaves the loop (\<open>Break\<close>: the test fails or a \<open>break\<close> is
  executed) or goes back to the test (\<open>Continue\<close>). The loop returns the state at which it
  is left; it does not return when it runs forever.
\<close>

datatype 's iter = Break 's | Continue 's

partial_function (option) while_loop :: "('s \<Rightarrow> 's iter) \<Rightarrow> 's \<Rightarrow> 's option" where
  "while_loop body s = (case body s of Break s' \<Rightarrow> Some s' | Continue s' \<Rightarrow> while_loop body s')"

declare while_loop.simps [code]

record search_result =
  route_nodes :: "int list option"
  route_enodes :: "enode list option"
  cost :: pyfloat
  expanded :: nat

definition no_route :: "nat \<Rightarrow> search_result" where
  "no_route n = \<lparr>route_nodes = None, route_enodes = None, cost = PInf, expanded = n\<rparr>"

text \<open>
  The local variables of \<open>dijkstra_route\<close> (\<open>pq\<close>, \<open>dist\<close>, \<open>prev\<close>, \<open>expanded\<close>,
  \<open>visited\<close>, \<open>best_target\<close>, \<open>best_cost\<close>) and of \<open>astar_route\<close> (\<open>open_heap\<close>,
  \<open>gscore\<close>, \<open>prev\<close>, ...), with the heap entry type as parameter.
\<close>

record 'h sstate =
  s_heap :: "'h list"
  s_dist :: "enode \<rightharpoonup> real"
  s_prev :: "enode \<rightharpoonup> enode option"
  s_expanded :: nat
  s_visited :: "enode set"
  s_best_target :: "enode option"
  s_best_cost :: pyfloat

definition init_state :: "'h sstate" where
  "init_state = \<lparr>s_heap = [], s_dist = Map.empty, s_prev = Map.empty, s_expanded = 0,
                 s_visited = {}, s_best_target = None, s_best_cost = PInf\<rparr>"

text \<open>\<open>if not allow_closed and is_enode_closed(EG, enode): continue\<close>\<close>

definition skip_closed :: "edge_graph \<Rightarrow> bool \<Rightarrow> enode \<Rightarrow> bool" where
  "skip_closed EG allow_closed enode = (\<not> allow_closed \<and> is_enode_closed EG enode)"

text \<open>\<open>max_visits is not None and expanded >= max_visits\<close>\<close>

definition cap_reached :: "int option \<Rightarrow> nat \<Rightarrow> bool" where
  "cap_reached max_visits n = (case max_visits of None \<Rightarrow> False | Some m \<Rightarrow> int n \<ge> m)"

text \<open>\<open>x > d.get(enode, math.inf)\<close> and \<open>x < d.get(enode, math.inf)\<close>\<close>

definition gt_get :: "real \<Rightarrow> real option \<Rightarrow> bool" where
  "gt_get x d = (case d of None \<Rightarrow> False | Some y \<Rightarrow> x > y)"

definition lt_get :: "real \<Rightarrow> real option \<Rightarrow> bool" where
  "lt_get x d = (case d of None \<Rightarrow> True | Some y \<Rightarrow> x < y)"

text \<open>\<open>prev.get(current)\<close>\<close>

definition prev_get :: "(enode \<rightharpoonup> enode option) \<Rightarrow> enode \<Rightarrow> enode option" where
  "prev_get prv current = (case prv current of None \<Rightarrow> None | Some p \<Rightarrow> p)"

text \<open>
  \<open>while current is not None: path.append(current); current = prev.get(current)\<close>.
  The loop does not end when the predecessor entries form a cycle.
\<close>

partial_function (option) prev_chain ::
  "(enode \<rightharpoonup> enode option) \<Rightarrow> enode option \<Rightarrow> enode list \<Rightarrow> enode list option" where
  "prev_chain prv current path =
     (case current of None \<Rightarrow> Some path
      | Some c \<Rightarrow> prev_chain prv (prev_get prv c) (path @ [c]))"

declare prev_chain.simps [code]

fun route_nodes_of :: "enode list \<Rightarrow> int list" where
  "route_nodes_of [] = []"
| "route_nodes_of ((u, v, k) # rest) = [u, v] @ map (\<lambda>(u', v', k'). v') rest"

text \<open>The list comprehension \<open>[en for en in ens if validate_single_edge(EG, en, constraints)[0]]\<close>.\<close>

fun filter_valid :: "edge_graph \<Rightarrow> constraints \<Rightarrow> enode list \<Rightarrow> py_error + enode list" where
  "filter_valid EG c [] = Inr []"
| "filter_valid EG c (en # rest) =
     (case validate_single_edge EG en c of
        Inl e \<Rightarrow> Inl e
      | Inr (ok, pen) \<Rightarrow>
          (case filter_valid EG c rest of
             Inl e \<Rightarrow> Inl e
           | Inr keep \<Rightarrow> Inr (if ok then en # keep else keep)))"

text \<open>\<open>if constraints:\<close> holds for a dictionary with at least one key.\<close>

definition apply_constraints ::
  "edge_graph \<Rightarrow> constraints option \<Rightarrow> enode list \<Rightarrow> py_error + enode list" where
  "apply_constraints EG constraints ens =
     (case constraints of
        None \<Rightarrow> Inr ens
      | Some c \<Rightarrow> if c = [] then Inr ens else filter_valid EG c ens)"

subsection \<open>dijkstra\_route\<close>

definition dijkstra_seed :: "edge_graph \<Rightarrow> bool \<Rightarrow> enode \<Rightarrow> (real \<times> enode) sstate \<Rightarrow> (real \<times> enode) sstate" where
  "dijkstra_seed EG allow_closed enode s =
     (if skip_closed EG allow_closed enode then s
      else let init_cost = enode_travel_time EG enode
           in s\<lparr>s_dist := (s_dist s)(enode \<mapsto> init_cost),
                s_prev := (s_prev s)(enode \<mapsto> None),
                s_heap := heappush (s_heap s) (init_cost, enode)\<rparr>)"

definition dijkstra_relax ::
  "edge_graph \<Rightarrow> bool \<Rightarrow> real \<Rightarrow> enode \<Rightarrow> enode \<Rightarrow> (real \<times> enode) sstate \<Rightarrow> (real \<times> enode) sstate" where
  "dijkstra_relax EG allow_closed cost_u enode neighbor s =
     (if skip_closed EG allow_closed neighbor then s
      else let candidate = cost_u + turn_cost EG enode neighbor + enode_travel_time EG neighbor
           in if lt_get candidate (s_dist s neighbor)
              then s\<lparr>s_dist := (s_dist s)(neighbor \<mapsto> candidate),
                     s_prev := (s_prev s)(neighbor \<mapsto> Some enode),
                     s_heap := heappush (s_heap s) (candidate, neighbor)\<rparr>
              else s)"

text \<open>
  One pass of the main loop \<open>while pq: ...\<close>. The loop does not end on a cycle of
  negative cost.
\<close>

definition dijkstra_iter ::
  "edge_graph \<Rightarrow> enode list \<Rightarrow> bool \<Rightarrow> int option \<Rightarrow> (real \<times> enode) sstate \<Rightarrow> (real \<times> enode) sstate iter" where
  "dijkstra_iter EG target_enodes allow_closed max_visits s =
     (case heappop (s_heap s) of
        None \<Rightarrow> Break s
      | Some ((cost_u, enode), rest) \<Rightarrow>
          if cap_reached max_visits (s_expanded s) then Break (s\<lparr>s_heap := rest\<rparr>)
          else if gt_get cost_u (s_dist s enode) then Continue (s\<lparr>s_heap := rest\<rparr>)
          else if enode \<in> set target_enodes
          then Break (s\<lparr>s_heap := rest, s_expanded := s_expanded s + 1,
                        s_best_target := Some enode, s_best_cost := Fin cost_u\<rparr>)
          else Continue
                 (fold (dijkstra_relax EG allow_closed cost_u enode) (successors EG enode)
                    (s\<lparr>s_heap := rest, s_expanded := s_expanded s + 1,
                       s_visited := insert enode (s_visited s)\<rparr>)))"

text \<open>The code after the loop: the no-route result, or the route rebuilt from \<open>prev\<close>.\<close>

definition build_result :: "'h sstate \<Rightarrow> search_result option" where
  "build_result s =
     (case s_best_target s of
        None \<Rightarrow> Some (no_route (s_expanded s))
      | Some t \<Rightarrow>
          (case prev_chain (s_prev s) (Some t) [] of
             None \<Rightarrow> None
           | Some path \<Rightarrow>
               Some \<lparr>route_nodes = Some (route_nodes_of (rev path)), route_enodes = Some (rev path),
                     cost = s_best_cost s, expanded = s_expanded s\<rparr>))"

text \<open>The search proper, from the seeding loop to the result, on the filtered seed and target sets.\<close>

definition dijkstra_search ::
  "edge_graph \<Rightarrow> enode list \<Rightarrow> enode list \<Rightarrow> bool \<Rightarrow> int option \<Rightarrow> search_result option" where
  "dijkstra_search EG start_enodes target_enodes allow_closed max_visits =
     (case while_loop (dijkstra_iter EG target_enodes allow_closed max_visits)
             (fold (dijkstra_seed EG allow_closed) start_enodes init_state) of
        None \<Rightarrow> None
      | Some s \<Rightarrow> build_result s)"

definition dijkstra_route ::
  "edge_graph \<Rightarrow> int \<Rightarrow> int \<Rightarrow> constraints option \<Rightarrow> bool \<Rightarrow> int option
     \<Rightarrow> (py_error + search_result) option" where
  "dijkstra_route EG start_node_id target_node_id constraints allow_closed max_visits =
     (let start_enodes = enodes_from_start EG start_node_id;
          target_enodes = target_nodes EG target_node_id
      in if start_enodes = [] \<or> target_enodes = [] then Some (Inr (no_route 0))
         else
           (case apply_constraints EG constraints start_enodes of
              Inl e \<Rightarrow> Some (Inl e)
            | Inr start_enodes' \<Rightarrow>
           (case apply_constraints EG constraints target_enodes of
              Inl e \<Rightarrow> Some (Inl e)
            | Inr target_enodes' \<Rightarrow>
             map_option Inr (dijkstra_search EG start_enodes' target_enodes' allow_closed max_visits))))"

subsection \<open>astar\_route\<close>

definition hypot :: "real \<Rightarrow> real \<Rightarrow> real" where
  "hypot a b = sqrt (a\<^sup>2 + b\<^sup>2)"

text \<open>
  The heuristic of \<open>astar_route\<close> and the forward heuristic of the bidirectional search:
  the distance from the segment's destination endpoint to the anchor \<open>(tx, ty)\<close>, over the
  assumed maximum speed.
\<close>

definition heuristic :: "edge_graph \<Rightarrow> real \<times> real \<Rightarrow> real \<Rightarrow> enode \<Rightarrow> real" where
  "heuristic EG anchor vmax_mps enode =
     hypot (v_x (eg_attr EG enode) - fst anchor) (v_y (eg_attr EG enode) - snd anchor) / vmax_mps"

definition heuristic_backward :: "edge_graph \<Rightarrow> real \<times> real \<Rightarrow> real \<Rightarrow> enode \<Rightarrow> real" where
  "heuristic_backward EG anchor vmax_mps enode =
     hypot (u_x (eg_attr EG enode) - fst anchor) (u_y (eg_attr EG enode) - snd anchor) / vmax_mps"

definition astar_seed ::
  "edge_graph \<Rightarrow> bool \<Rightarrow> (enode \<Rightarrow> real) \<Rightarrow> enode \<Rightarrow> (real \<times> real \<times> enode) sstate
     \<Rightarrow> (real \<times> real \<times> enode) sstate" where
  "astar_seed EG allow_closed h enode s =
     (if skip_closed EG allow_closed enode then s
      else let g = enode_travel_time EG enode
           in s\<lparr>s_dist := (s_dist s)(enode \<mapsto> g),
                s_prev := (s_prev s)(enode \<mapsto> None),
                s_heap := heappush (s_heap s) (g + h enode, g, enode)\<rparr>)"

definition astar_relax ::
  "edge_graph \<Rightarrow> bool \<Rightarrow> (enode \<Rightarrow> real) \<Rightarrow> real \<Rightarrow> enode \<Rightarrow> enode
     \<Rightarrow> (real \<times> real \<times> enode) sstate \<Rightarrow> (real \<times> real \<times> enode) sstate" where
  "astar_relax EG allow_closed h g enode neighbor s =
     (if skip_closed EG allow_closed neighbor then s
      else let tentative_g = g + turn_cost EG enode neighbor + enode_travel_time EG neighbor
           in if lt_get tentative_g (s_dist s neighbor)
              then s\<lparr>s_dist := (s_dist s)(neighbor \<mapsto> tentative_g),
                     s_prev := (s_prev s)(neighbor \<mapsto> Some enode),
                     s_heap := heappush (s_heap s) (tentative_g + h neighbor, tentative_g, neighbor)\<rparr>
              else s)"

definition astar_iter ::
  "edge_graph \<Rightarrow> (enode \<Rightarrow> real) \<Rightarrow> enode list \<Rightarrow> bool \<Rightarrow> int option
     \<Rightarrow> (real \<times> real \<times> enode) sstate \<Rightarrow> (real \<times> real \<times> enode) sstate iter" where
  "astar_iter EG h target_enodes allow_closed max_visits s =
     (case heappop (s_heap s) of
        None \<Rightarrow> Break s
      | Some ((f, g, enode), rest) \<Rightarrow>
          if cap_reached max_visits (s_expanded s) then Break (s\<lparr>s_heap := rest\<rparr>)
          else if enode \<in> s_visited s then Continue (s\<lparr>s_heap := rest\<rparr>)
          else if gt_get g (s_dist s enode)
          then Continue (s\<lparr>s_heap := rest, s_visited := insert enode (s_visited s)\<rparr>)
          else if enode \<in> set target_enodes
          then Break (s\<lparr>s_heap := rest, s_visited := insert enode (s_visited s),
                        s_expanded := s_expanded s + 1,
                        s_best_target := Some enode, s_best_cost := Fin g\<rparr>)
          else Continue
                 (fold (astar_relax EG allow_closed h g enode) (successors EG enode)
                    (s\<lparr>s_heap := rest, s_visited := insert enode (s_visited s),
                       s_expanded := s_expanded s + 1\<rparr>)))"

definition astar_search ::
  "edge_graph \<Rightarrow> (enode \<Rightarrow> real) \<Rightarrow> enode list \<Rightarrow> enode list \<Rightarrow> bool \<Rightarrow> int option
     \<Rightarrow> search_result option" where
  "astar_search EG h start_enodes target_enodes allow_closed max_visits =
     (case while_loop (astar_iter EG h target_enodes allow_closed max_visits)
             (fold (astar_seed EG allow_closed h) start_enodes init_state) of
        None \<Rightarrow> None
      | Some s \<Rightarrow> build_result s)"

text \<open>
  \<open>next(iter(target_enodes))\<close> raises \<open>StopIteration\<close> on an empty collection (possible only
  after the constraint filter); the division by \<open>vmax_mps\<close> raises \<open>ZeroDivisionError\<close> the
  first time the heuristic is evaluated, which is at the first seed that is not skipped.
\<close>

definition astar_route ::
  "edge_graph \<Rightarrow> int \<Rightarrow> int \<Rightarrow> constraints option \<Rightarrow> real \<Rightarrow> bool \<Rightarrow> int option
     \<Rightarrow> (py_error + search_result) option" where
  "astar_route EG start_node_id target_node_id constraints vmax_mps allow_closed max_visits =
     (let start_enodes = enodes_from_start EG start_node_id;
          target_enodes = target_nodes EG target_node_id
      in if start_enodes = [] \<or> target_enodes = [] then Some (Inr (no_route 0))
         else
           (case apply_constraints EG constraints start_enodes of
              Inl e \<Rightarrow> Some (Inl e)
            | Inr start_enodes' \<Rightarrow>
           (case apply_constraints EG constraints target_enodes of
              Inl e \<Rightarrow> Some (Inl e)
            | Inr target_enodes' \<Rightarrow>
           (case target_enodes' of
              [] \<Rightarrow> Some (Inl StopIteration)
            | sample_target # others \<Rightarrow>
                let anchor = (v_x (eg_attr EG sample_target), v_y (eg_attr EG sample_target));
                    h = heuristic EG anchor vmax_mps
                in if vmax_mps = 0 \<and> (\<exists>en \<in> set start_enodes'. \<not> skip_closed EG allow_closed en)
                   then Some (Inl ZeroDivisionError)
                   else
                     map_option Inr (astar_search EG h start_enodes' target_enodes' allow_closed max_visits)))))"

subsection \<open>bidirectional\_astar\_route\<close>

record bstate =
  open_fwd :: "(real \<times> real \<times> enode) list"
  open_bwd :: "(real \<times> real \<times> enode) list"
  g_fwd :: "enode \<rightharpoonup> real"
  g_bwd :: "enode \<rightharpoonup> real"
  prev_fwd :: "enode \<rightharpoonup> enode option"
  prev_bwd :: "enode \<rightharpoonup> enode option"
  b_expanded :: nat
  b_best_cost :: pyfloat
  meeting_node :: "enode option"

definition init_bstate :: bstate where
  "init_bstate = \<lparr>open_fwd = [], open_bwd = [], g_fwd = Map.empty, g_bwd = Map.empty,
                  prev_fwd = Map.empty, prev_bwd = Map.empty, b_expanded = 0,
                  b_best_cost = PInf, meeting_node = None\<rparr>"

definition fwd_seed :: "edge_graph \<Rightarrow> bool \<Rightarrow> (enode \<Rightarrow> real) \<Rightarrow> enode \<Rightarrow> bstate \<Rightarrow> bstate" where
  "fwd_seed EG allow_closed hf en s =
     (if skip_closed EG allow_closed en then s
      else let g = enode_travel_time EG en
           in s\<lparr>g_fwd := (g_fwd s)(en \<mapsto> g),
                prev_fwd := (prev_fwd s)(en \<mapsto> None),
                open_fwd := heappush (open_fwd s) (g + hf en, g, en)\<rparr>)"

definition bwd_seed :: "edge_graph \<Rightarrow> bool \<Rightarrow> (enode \<Rightarrow> real) \<Rightarrow> enode \<Rightarrow> bstate \<Rightarrow> bstate" where
  "bwd_seed EG allow_closed hb en s =
     (if skip_closed EG allow_closed en then s
      else let g = enode_travel_time EG en
           in s\<lparr>g_bwd := (g_bwd s)(en \<mapsto> g),
                prev_bwd := (prev_bwd s)(en \<mapsto> None),
                open_bwd := heappush (open_bwd s) (g + hb en, g, en)\<rparr>)"

definition fwd_relax ::
  "edge_graph \<Rightarrow> bool \<Rightarrow> (enode \<Rightarrow> real) \<Rightarrow> real \<Rightarrow> enode \<Rightarrow> enode \<Rightarrow> bstate \<Rightarrow> bstate" where
  "fwd_relax EG allow_closed hf g enode neighbor s =
     (if skip_closed EG allow_closed neighbor then s
      else let tentative_g = g + turn_cost EG enode neighbor + enode_travel_time EG neighbor
           in if lt_get tentative_g (g_fwd s neighbor)
              then s\<lparr>g_fwd := (g_fwd s)(neighbor \<mapsto> tentative_g),
                     prev_fwd := (prev_fwd s)(neighbor \<mapsto> Some enode),
                     open_fwd := heappush (open_fwd s) (tentative_g + hf neighbor, tentative_g, neighbor)\<rparr>
              else s)"

definition bwd_relax ::
  "edge_graph \<Rightarrow> bool \<Rightarrow> (enode \<Rightarrow> real) \<Rightarrow> real \<Rightarrow> enode \<Rightarrow> enode \<Rightarrow> bstate \<Rightarrow> bstate" where
  "bwd_relax EG allow_closed hb g enode neighbor s =
     (if skip_closed EG allow_closed neighbor then s
      else let tentative_g = g + turn_cost EG neighbor enode + enode_travel_time EG neighbor
           in if lt_get tentative_g (g_bwd s neighbor)
              then s\<lparr>g_bwd := (g_bwd s)(neighbor \<mapsto> tentative_g),
                     prev_bwd := (prev_bwd s)(neighbor \<mapsto> Some enode),
                     open_bwd := heappush (open_bwd s) (tentative_g + hb neighbor, tentative_g, neighbor)\<rparr>
              else s)"

text \<open>
  \<open>if enode in g_other: total_cost = g + g_other[enode]; if total_cost < best_cost: ...\<close>
\<close>

definition meet :: "real \<Rightarrow> enode \<Rightarrow> real option \<Rightarrow> bstate \<Rightarrow> bstate" where
  "meet g enode other s =
     (case other of
        None \<Rightarrow> s
      | Some g' \<Rightarrow>
          let total_cost = g + g'
          in if pf_less (Fin total_cost) (b_best_cost s)
             then s\<lparr>b_best_cost := Fin total_cost, meeting_node := Some enode\<rparr>
             else s)"

text \<open>
  The two halves of one iteration. The flag of the result says that the half ended in
  \<open>continue\<close>, which sends the loop back to its test.
\<close>

definition forward_half :: "edge_graph \<Rightarrow> bool \<Rightarrow> (enode \<Rightarrow> real) \<Rightarrow> bstate \<Rightarrow> bool \<times> bstate" where
  "forward_half EG allow_closed hf s =
     (case heappop (open_fwd s) of
        None \<Rightarrow> (False, s)
      | Some ((f, g, enode), rest) \<Rightarrow>
          let s1 = s\<lparr>open_fwd := rest, b_expanded := b_expanded s + 1\<rparr>
          in if gt_get g (g_fwd s1 enode) then (True, s1)
             else (False, fold (fwd_relax EG allow_closed hf g enode) (successors EG enode)
                            (meet g enode (g_bwd s1 enode) s1)))"

definition backward_half :: "edge_graph \<Rightarrow> bool \<Rightarrow> (enode \<Rightarrow> real) \<Rightarrow> bstate \<Rightarrow> bool \<times> bstate" where
  "backward_half EG allow_closed hb s =
     (case heappop (open_bwd s) of
        None \<Rightarrow> (False, s)
      | Some ((f, g, enode), rest) \<Rightarrow>
          let s1 = s\<lparr>open_bwd := rest, b_expanded := b_expanded s + 1\<rparr>
          in if gt_get g (g_bwd s1 enode) then (True, s1)
             else (False, fold (bwd_relax EG allow_closed hb g enode) (predecessors EG enode)
                            (meet g enode (g_fwd s1 enode) s1)))"

text \<open>\<open>max_visits and expanded >= max_visits\<close>: a cap of \<open>None\<close> or \<open>0\<close> is false.\<close>

definition bidi_cap_reached :: "int option \<Rightarrow> nat \<Rightarrow> bool" where
  "bidi_cap_reached max_visits n = (case max_visits of None \<Rightarrow> False | Some m \<Rightarrow> m \<noteq> 0 \<and> int n \<ge> m)"

text \<open>One pass of \<open>while open_fwd and open_bwd: ...\<close>.\<close>

definition bidi_iter ::
  "edge_graph \<Rightarrow> bool \<Rightarrow> int option \<Rightarrow> (enode \<Rightarrow> real) \<Rightarrow> (enode \<Rightarrow> real) \<Rightarrow> bstate \<Rightarrow> bstate iter" where
  "bidi_iter EG allow_closed max_visits hf hb s =
     (if open_fwd s = [] \<or> open_bwd s = [] then Break s
      else if bidi_cap_reached max_visits (b_expanded s) then Break s
      else (case forward_half EG allow_closed hf s of
              (continue, s1) \<Rightarrow>
                if continue then Continue s1
                else Continue (snd (backward_half EG allow_closed hb s1))))"

definition bidi_result :: "bstate \<Rightarrow> search_result option" where
  "bidi_result s =
     (case meeting_node s of
        None \<Rightarrow> Some (no_route (b_expanded s))
      | Some m \<Rightarrow>
          (case prev_chain (prev_fwd s) (Some m) [] of
             None \<Rightarrow> None
           | Some path_fwd \<Rightarrow>
          (case prev_chain (prev_bwd s) (prev_get (prev_bwd s) m) [] of
             None \<Rightarrow> None
           | Some path_bwd \<Rightarrow>
               let path_enodes = rev path_fwd @ path_bwd
               in Some \<lparr>route_nodes = Some (route_nodes_of path_enodes),
                        route_enodes = Some path_enodes,
                        cost = b_best_cost s, expanded = b_expanded s\<rparr>)))"

definition bidi_search ::
  "edge_graph \<Rightarrow> (enode \<Rightarrow> real) \<Rightarrow> (enode \<Rightarrow> real) \<Rightarrow> enode list \<Rightarrow> enode list \<Rightarrow> bool \<Rightarrow> int option
     \<Rightarrow> search_result option" where
  "bidi_search EG hf hb start_enodes target_enodes allow_closed max_visits =
     (case while_loop (bidi_iter EG allow_closed max_visits hf hb)
             (fold (bwd_seed EG allow_closed hb) target_enodes
                (fold (fwd_seed EG allow_closed hf) start_enodes init_bstate)) of
        None \<Rightarrow> None
      | Some s \<Rightarrow> bidi_result s)"

definition bidirectional_astar_route ::
  "edge_graph \<Rightarrow> int \<Rightarrow> int \<Rightarrow> real \<Rightarrow> bool \<Rightarrow> constraints option \<Rightarrow> int option
     \<Rightarrow> (py_error + search_result) option" where
  "bidirectional_astar_route EG start_node_id target_node_id vmax_mps allow_closed constraints max_visits =
     (let start_enodes = enodes_from_start EG start_node_id;
          target_enodes = target_nodes EG target_node_id
      in if start_enodes = [] \<or> target_enodes = [] then Some (Inr (no_route 0))
         else
           (case apply_constraints EG constraints start_enodes of
              Inl e \<Rightarrow> Some (Inl e)
            | Inr start_enodes' \<Rightarrow>
           (case apply_constraints EG constraints target_enodes of
              Inl e \<Rightarrow> Some (Inl e)
            | Inr target_enodes' \<Rightarrow>
           (case target_enodes' of
              [] \<Rightarrow> Some (Inl StopIteration)
            | sample_target # others \<Rightarrow>
           (case start_enodes' of
              [] \<Rightarrow> Some (Inl StopIteration)
            | sample_start # others' \<Rightarrow>
                let hf = heuristic EG (v_x (eg_attr EG sample_target), v_y (eg_attr EG sample_target)) vmax_mps;
                    hb = heuristic_backward EG (u_x (eg_attr EG sample_start), u_y (eg_attr EG sample_start)) vmax_mps
                in if vmax_mps = 0 \<and> (\<exists>en \<in> set (start_enodes' @ target_enodes'). \<not> skip_closed EG allow_closed en)
                   then Some (Inl ZeroDivisionError)
                   else
                     map_option Inr
                       (bidi_search EG hf hb start_enodes' target_enodes' allow_closed max_visits))))))"

section \<open>Planning orchestrator (core/route\_planner.py)\<close>

text \<open>
  The loop of \<open>_run_search\<close> over the three results, in the order dijkstra, astar,
  bidirectional: a result replaces the best one when its travel time is strictly smaller.
\<close>

fun pick_best :: "edge_graph \<Rightarrow> search_result list \<Rightarrow> search_result option \<Rightarrow> pyfloat \<Rightarrow> search_result option" where
  "pick_best EG [] best_route best_time = best_route"
| "pick_best EG (route # rest) best_route best_time =
     (let total_time = compute_route_tt EG (route_enodes route)
      in if pf_less total_time best_time then pick_best EG rest (Some route) total_time
         else pick_best EG rest best_route best_time)"

text \<open>\<open>_run_search\<close>: the result is \<open>None\<close> (Python's) when none of the three searches has a route.\<close>

definition run_search ::
  "edge_graph \<Rightarrow> int \<Rightarrow> int \<Rightarrow> bool \<Rightarrow> (py_error + search_result option) option" where
  "run_search EG start_node target_node allow_closed =
     (case dijkstra_route EG start_node target_node None allow_closed None of
        None \<Rightarrow> None
      | Some (Inl e) \<Rightarrow> Some (Inl e)
      | Some (Inr route_djkstra) \<Rightarrow>
     (case astar_route EG start_node target_node None 30 allow_closed None of
        None \<Rightarrow> None
      | Some (Inl e) \<Rightarrow> Some (Inl e)
      | Some (Inr route_astar) \<Rightarrow>
     (case bidirectional_astar_route EG start_node target_node 30 allow_closed None None of
        None \<Rightarrow> None
      | Some (Inl e) \<Rightarrow> Some (Inl e)
      | Some (Inr route_bidirectional) \<Rightarrow>
          Some (Inr (pick_best EG [route_djkstra, route_astar, route_bidirectional] None PInf)))))"

record plan_result =
  pr_start_node :: int
  pr_target_node :: int
  pr_route_nodes :: "int list option"
  pr_route_enodes :: "enode list option"
  pr_cost :: pyfloat
  pr_expanded_nodes :: nat
  pr_valid :: bool
  pr_penalty :: pyfloat
  pr_total_time :: pyfloat
  pr_vehicle_type :: string
  pr_relax_level :: "int option"
  pr_constraints_used :: "constraints option"

text \<open>The terminal result of \<open>_plan_route\<close>, returned after the last relaxation level.\<close>

definition infeasible :: "int \<Rightarrow> int \<Rightarrow> string \<Rightarrow> plan_result" where
  "infeasible start_node target_node vehicle_type =
     \<lparr>pr_start_node = start_node, pr_target_node = target_node,
      pr_route_nodes = None, pr_route_enodes = None, pr_cost = PInf, pr_expanded_nodes = 0,
      pr_valid = False, pr_penalty = PInf, pr_total_time = PInf,
      pr_vehicle_type = vehicle_type, pr_relax_level = None, pr_constraints_used = None\<rparr>"

text \<open>
  The loop \<open>for level in range(0, max_relax_level + 1)\<close>. \<open>res.get("route_enodes")\<close> on the
  \<open>None\<close> that \<open>_run_search\<close> returns raises \<open>AttributeError\<close>. The searches read the working
  copy of the graph and do not change it.
\<close>

fun plan_levels ::
  "edge_graph \<Rightarrow> int \<Rightarrow> int \<Rightarrow> string \<Rightarrow> constraints \<Rightarrow> bool \<Rightarrow> int list
     \<Rightarrow> (py_error + plan_result) option" where
  "plan_levels EG start_node target_node vehicle_type profile closed_flag [] =
     Some (Inr (infeasible start_node target_node vehicle_type))"
| "plan_levels EG start_node target_node vehicle_type profile closed_flag (level # rest) =
     (let constraints = relax_constraints profile level
      in case run_search EG start_node target_node closed_flag of
           None \<Rightarrow> None
         | Some (Inl e) \<Rightarrow> Some (Inl e)
         | Some (Inr None) \<Rightarrow> Some (Inl AttributeError)
         | Some (Inr (Some res)) \<Rightarrow>
             (case validate_route EG (route_enodes res) constraints of
                Inl e \<Rightarrow> Some (Inl e)
              | Inr (valid, pen) \<Rightarrow>
                  if valid
                  then Some (Inr \<lparr>pr_start_node = start_node, pr_target_node = target_node,
                                  pr_route_nodes = route_nodes res, pr_route_enodes = route_enodes res,
                                  pr_cost = pen, pr_expanded_nodes = expanded res,
                                  pr_valid = valid, pr_penalty = pen,
                                  pr_total_time = compute_route_tt EG (route_enodes res),
                                  pr_vehicle_type = vehicle_type, pr_relax_level = Some level,
                                  pr_constraints_used = Some constraints\<rparr>)
                  else plan_levels EG start_node target_node vehicle_type profile closed_flag rest))"

text \<open>
  \<open>_plan_route\<close>. The profile is read before the membership test, so an unknown vehicle type
  raises \<open>KeyError\<close>; the flag handed to the searches as \<open>allow_closed\<close> is the profile's
  \<open>avoid_closed\<close> entry.
\<close>

definition plan_route ::
  "edge_graph \<Rightarrow> int \<Rightarrow> int \<Rightarrow> string \<Rightarrow> int \<Rightarrow> (py_error + plan_result) option" where
  "plan_route EG start_node target_node vehicle_type max_relax_level =
     (case map_of VEHICLE_PROFILES vehicle_type of
        None \<Rightarrow> Some (Inl KeyError)
      | Some profile \<Rightarrow>
          (case c_get profile ''avoid_closed'' of
             None \<Rightarrow> Some (Inl KeyError)
           | Some closed_val \<Rightarrow>
               if map_of VEHICLE_PROFILES vehicle_type = None then Some (Inl ValueError)
               else plan_levels EG start_node target_node vehicle_type profile
                      (truthy (Some closed_val)) [0..max_relax_level]))"

section \<open>Vocabulary of the properties\<close>

text \<open>
  A path of the edge graph is a list of segments in which each segment is a successor of the
  one before it. Its cost is the travel time of the first segment plus, for each later segment,
  the turn cost of the transition into it and its travel time.
\<close>

fun chain :: "edge_graph \<Rightarrow> enode list \<Rightarrow> bool" where
  "chain EG [] = True"
| "chain EG [a] = True"
| "chain EG (a # b # rest) = (b \<in> set (successors EG a) \<and> chain EG (b # rest))"

fun path_cost :: "edge_graph \<Rightarrow> enode list \<Rightarrow> real" where
  "path_cost EG [] = 0"
| "path_cost EG [a] = enode_travel_time EG a"
| "path_cost EG (a # b # rest) = enode_travel_time EG a + turn_cost EG a b + path_cost EG (b # rest)"

text \<open>A path from a set of seed segments to a set of target segments.\<close>

definition graph_path :: "edge_graph \<Rightarrow> enode list \<Rightarrow> enode list \<Rightarrow> enode list \<Rightarrow> bool" where
  "graph_path EG seeds targets p = (p \<noteq> [] \<and> hd p \<in> set seeds \<and> last p \<in> set targets \<and> chain EG p)"

text \<open>A path that the closed-segment filter of the searches lets through.\<close>

definition passes_filter :: "edge_graph \<Rightarrow> bool \<Rightarrow> enode list \<Rightarrow> bool" where
  "passes_filter EG allow_closed p = list_all (\<lambda>n. \<not> skip_closed EG allow_closed n) p"

text \<open>
  A networkx graph holds both ends of each of its edges among its nodes.
\<close>

definition wf_graph :: "edge_graph \<Rightarrow> bool" where
  "wf_graph EG = list_all (\<lambda>e. fst e \<in> set (eg_nodes EG) \<and> snd e \<in> set (eg_nodes EG)) (eg_edges EG)"

text \<open>Every segment travel time and every transition turn cost is non-negative.\<close>

definition nonneg_costs :: "edge_graph \<Rightarrow> bool" where
  "nonneg_costs EG =
     (list_all (\<lambda>n. 0 \<le> enode_travel_time EG n) (eg_nodes EG) \<and>
      list_all (\<lambda>e. 0 \<le> turn_cost EG (fst e) (snd e)) (eg_edges EG))"



text \<open>
  A heuristic never overestimates the true remaining cost when, for every path that the
  search may take from a segment to a target, it is at most the cost of the path after its
  first segment.
\<close>

definition admissible :: "edge_graph \<Rightarrow> bool \<Rightarrow> enode list \<Rightarrow> (enode \<Rightarrow> real) \<Rightarrow> bool" where
  "admissible EG allow_closed targets h =
     (\<forall>p. p \<noteq> [] \<and> chain EG p \<and> passes_filter EG allow_closed p \<and> last p \<in> set targets
          \<longrightarrow> h (hd p) \<le> path_cost EG p - enode_travel_time EG (hd p))"

text \<open>The graph with the \<open>closed\<close> attribute of one segment replaced.\<close>

definition set_closed :: "edge_graph \<Rightarrow> enode \<Rightarrow> bool option \<Rightarrow> edge_graph" where
  "set_closed EG e b = EG\<lparr>eg_attr := (eg_attr EG)(e := (eg_attr EG e)\<lparr>closed := b\<rparr>)\<rparr>"

text \<open>The three allow-list checks that end \<open>validate_single_edge\<close>, from a running penalty.\<close>

definition allow_lists :: "seg \<Rightarrow> constraints \<Rightarrow> real \<Rightarrow> py_error + real" where
  "allow_lists data c p2 =
     (case allow_list_check ''tunnel'' (tunnel data) c p2 of
        Inl e \<Rightarrow> Inl e
      | Inr p3 \<Rightarrow>
     (case allow_list_check ''bridge'' (bridge data) c p3 of
        Inl e \<Rightarrow> Inl e
      | Inr p4 \<Rightarrow> allow_list_check ''road_type'' (highway data) c p4))"

text \<open>
  The states that a loop passes through: \<open>reaches body s0 s\<close> when the loop started in
  \<open>s0\<close> arrives at its test in state \<open>s\<close>.
\<close>

inductive reaches :: "('s \<Rightarrow> 's iter) \<Rightarrow> 's \<Rightarrow> 's \<Rightarrow> bool" for body :: "'s \<Rightarrow> 's iter" and s0 :: 's where
  reaches_start: "reaches body s0 s0"
| reaches_step: "reaches body s0 s \<Longrightarrow> body s = Continue s' \<Longrightarrow> reaches body s0 s'"

subsection \<open>What the searches have in common\<close>

text \<open>
  The part of a search state that seeding and relaxation change: the queue entries as pairs
  of accumulated cost and segment, the table of best known costs, and the predecessor table.
\<close>

type_synonym astate = "(real \<times> enode) set \<times> (enode \<rightharpoonup> real) \<times> (enode \<rightharpoonup> enode option)"

definition abs_seed :: "edge_graph \<Rightarrow> bool \<Rightarrow> enode \<Rightarrow> astate \<Rightarrow> astate" where
  "abs_seed EG allow_closed en A =
     (case A of (H, ds, pv) \<Rightarrow>
        if skip_closed EG allow_closed en then A
        else (insert (enode_travel_time EG en, en) H, ds(en \<mapsto> enode_travel_time EG en), pv(en \<mapsto> None)))"

definition abs_relax ::
  "edge_graph \<Rightarrow> bool \<Rightarrow> (enode \<Rightarrow> enode \<Rightarrow> real) \<Rightarrow> real \<Rightarrow> enode \<Rightarrow> enode \<Rightarrow> astate \<Rightarrow> astate" where
  "abs_relax EG allow_closed tc g u v A =
     (case A of (H, ds, pv) \<Rightarrow>
        if skip_closed EG allow_closed v then A
        else if lt_get (g + tc u v + enode_travel_time EG v) (ds v)
             then (insert (g + tc u v + enode_travel_time EG v, v) H,
                   ds(v \<mapsto> g + tc u v + enode_travel_time EG v), pv(v \<mapsto> Some u))
             else A)"

definition abs_d :: "(real \<times> enode) sstate \<Rightarrow> astate" where
  "abs_d s = (set (s_heap s), s_dist s, s_prev s)"

definition abs_a :: "(real \<times> real \<times> enode) sstate \<Rightarrow> astate" where
  "abs_a s = (snd ` set (s_heap s), s_dist s, s_prev s)"

definition abs_f :: "bstate \<Rightarrow> astate" where
  "abs_f s = (snd ` set (open_fwd s), g_fwd s, prev_fwd s)"

definition abs_b :: "bstate \<Rightarrow> astate" where
  "abs_b s = (snd ` set (open_bwd s), g_bwd s, prev_bwd s)"





text \<open>
  \<open>fwd_cost\<close>: some path through the filter leads from a seed to the segment at the given
  cost; \<open>bwd_cost\<close>: some path through the filter leads from the segment to a target at the
  given cost.
\<close>

definition fwd_cost :: "edge_graph \<Rightarrow> bool \<Rightarrow> enode list \<Rightarrow> enode \<Rightarrow> real \<Rightarrow> bool" where
  "fwd_cost EG allow_closed seeds n g =
     (\<exists>p. p \<noteq> [] \<and> hd p \<in> set seeds \<and> last p = n \<and> chain EG p \<and>
          passes_filter EG allow_closed p \<and> path_cost EG p = g)"


text \<open>Every cost in the table and in the queue is the cost of a path (\<open>R\<close> says of which kind).\<close>

definition snd_inv :: "(enode \<Rightarrow> real \<Rightarrow> bool) \<Rightarrow> astate \<Rightarrow> bool" where
  "snd_inv R A = (case A of (H, ds, pv) \<Rightarrow> (\<forall>n g. ds n = Some g \<longrightarrow> R n g) \<and> (\<forall>x \<in> H. R (snd x) (fst x)))"

subsection \<open>Invariants of the label-setting searches\<close>

text \<open>
  The heuristic drops along a transition the search may take by no more than the cost of the
  transition. With the zero heuristic this says that the costs are non-negative.
\<close>

definition mono_h :: "edge_graph \<Rightarrow> bool \<Rightarrow> (enode \<Rightarrow> real) \<Rightarrow> bool" where
  "mono_h EG allow_closed h =
     (\<forall>u v. v \<in> set (successors EG u) \<longrightarrow> \<not> skip_closed EG allow_closed v \<longrightarrow>
        h u \<le> turn_cost EG u v + enode_travel_time EG v + h v)"

text \<open>Every queue entry is for a segment with a known cost, which is at most the entry's.\<close>

definition inv_entries :: "(real \<times> enode) set \<Rightarrow> (enode \<rightharpoonup> real) \<Rightarrow> bool" where
  "inv_entries H ds = (\<forall>x \<in> H. \<exists>d. ds (snd x) = Some d \<and> d \<le> fst x)"

text \<open>Every segment with a known cost that is not settled has an entry with that cost.\<close>

definition inv_queued :: "(real \<times> enode) set \<Rightarrow> (enode \<rightharpoonup> real) \<Rightarrow> enode set \<Rightarrow> bool" where
  "inv_queued H ds vis = (\<forall>n d. ds n = Some d \<longrightarrow> n \<notin> vis \<longrightarrow> (d, n) \<in> H)"

text \<open>No queue entry has a smaller priority than a settled segment.\<close>

definition inv_settled :: "(enode \<Rightarrow> real) \<Rightarrow> (real \<times> enode) set \<Rightarrow> (enode \<rightharpoonup> real) \<Rightarrow> enode set \<Rightarrow> bool" where
  "inv_settled h H ds vis =
     (\<forall>n \<in> vis. \<exists>d. ds n = Some d \<and> (\<forall>x \<in> H. d + h n \<le> fst x + h (snd x)))"

text \<open>The priority of every settled segment is at most \<open>b\<close>.\<close>

definition inv_bound :: "(enode \<Rightarrow> real) \<Rightarrow> (enode \<rightharpoonup> real) \<Rightarrow> enode set \<Rightarrow> real \<Rightarrow> bool" where
  "inv_bound h ds vis b = (\<forall>n \<in> vis. \<exists>d. ds n = Some d \<and> d + h n \<le> b)"

text \<open>
  Every transition out of a settled segment into a segment that passes the filter has been
  relaxed (\<open>P\<close> leaves out the transitions of the segment under expansion that are still to
  come).
\<close>

definition inv_relaxed ::
  "edge_graph \<Rightarrow> bool \<Rightarrow> (enode \<rightharpoonup> real) \<Rightarrow> enode set \<Rightarrow> (enode \<Rightarrow> enode \<Rightarrow> bool) \<Rightarrow> bool" where
  "inv_relaxed EG allow_closed ds vis P =
     (\<forall>w \<in> vis. \<forall>v \<in> set (successors EG w). \<not> skip_closed EG allow_closed v \<longrightarrow> P w v \<longrightarrow>
        (\<exists>dw dv. ds w = Some dw \<and> ds v = Some dv \<and>
                  dv \<le> dw + turn_cost EG w v + enode_travel_time EG v))"

text \<open>Every seed that passes the filter has a known cost, at most its travel time.\<close>

definition inv_seeds :: "edge_graph \<Rightarrow> bool \<Rightarrow> enode list \<Rightarrow> (enode \<rightharpoonup> real) \<Rightarrow> bool" where
  "inv_seeds EG allow_closed seeds ds =
     (\<forall>n \<in> set seeds. \<not> skip_closed EG allow_closed n \<longrightarrow>
        (\<exists>d. ds n = Some d \<and> d \<le> enode_travel_time EG n))"

text \<open>The invariant of the main loop, at the loop's test.\<close>

definition opt_inv ::
  "edge_graph \<Rightarrow> bool \<Rightarrow> (enode \<Rightarrow> real) \<Rightarrow> enode list \<Rightarrow> enode list
     \<Rightarrow> (real \<times> enode) set \<Rightarrow> (enode \<rightharpoonup> real) \<Rightarrow> enode set \<Rightarrow> bool" where
  "opt_inv EG allow_closed h seeds targets H ds vis =
     (inv_entries H ds \<and> inv_queued H ds vis \<and> inv_settled h H ds vis \<and>
      inv_relaxed EG allow_closed ds vis (\<lambda>w v. True) \<and> inv_seeds EG allow_closed seeds ds \<and>
      vis \<inter> set targets = {})"

text \<open>
  The invariant of the loop over the successors of the segment \<open>u\<close> popped at cost \<open>c\<close>;
  \<open>D\<close> holds the successors already relaxed.
\<close>

definition opt_mid ::
  "edge_graph \<Rightarrow> bool \<Rightarrow> (enode \<Rightarrow> real) \<Rightarrow> enode list \<Rightarrow> enode list \<Rightarrow> enode \<Rightarrow> real \<Rightarrow> enode set
     \<Rightarrow> (real \<times> enode) set \<Rightarrow> (enode \<rightharpoonup> real) \<Rightarrow> enode set \<Rightarrow> bool" where
  "opt_mid EG allow_closed h seeds targets u c D H ds vis =
     (inv_entries H ds \<and> inv_queued H ds vis \<and> inv_settled h H ds vis \<and>
      inv_bound h ds vis (c + h u) \<and>
      inv_relaxed EG allow_closed ds vis (\<lambda>w v. w = u \<longrightarrow> v \<in> D) \<and>
      inv_seeds EG allow_closed seeds ds \<and> vis \<inter> set targets = {} \<and>
      ds u = Some c \<and> u \<in> vis)"

text \<open>The state of the seeding loop: the queue and the cost table hold the same pairs, each
  the travel time of its segment.\<close>

definition seed_inv :: "edge_graph \<Rightarrow> (real \<times> enode) set \<Rightarrow> (enode \<rightharpoonup> real) \<Rightarrow> bool" where
  "seed_inv EG H ds =
     ((\<forall>x \<in> H. ds (snd x) = Some (fst x) \<and> fst x = enode_travel_time EG (snd x)) \<and>
      (\<forall>n d. ds n = Some d \<longrightarrow> (d, n) \<in> H))"

text \<open>
  \<open>least_cost\<close>: the cost is that of a path through the filter from a seed to a target, and no
  such path costs less. \<open>search_done\<close>: what a label-setting search has found when its loop
  ends.
\<close>

definition least_cost :: "edge_graph \<Rightarrow> bool \<Rightarrow> enode list \<Rightarrow> enode list \<Rightarrow> real \<Rightarrow> bool" where
  "least_cost EG allow_closed seeds targets c =
     ((\<exists>q. graph_path EG seeds targets q \<and> passes_filter EG allow_closed q \<and> path_cost EG q = c) \<and>
      (\<forall>p. graph_path EG seeds targets p \<and> passes_filter EG allow_closed p \<longrightarrow> c \<le> path_cost EG p))"

definition search_done ::
  "edge_graph \<Rightarrow> bool \<Rightarrow> enode list \<Rightarrow> enode list \<Rightarrow> int option \<Rightarrow> 'h sstate \<Rightarrow> bool" where
  "search_done EG allow_closed seeds targets max_visits s =
     (case s_best_target s of
        None \<Rightarrow> max_visits = None \<longrightarrow>
                 \<not> (\<exists>p. graph_path EG seeds targets p \<and> passes_filter EG allow_closed p)
      | Some t \<Rightarrow> \<exists>c. s_best_cost s = Fin c \<and> least_cost EG allow_closed seeds targets c)"




subsection \<open>Example graphs\<close>

definition seg0 :: seg where
  "seg0 = \<lparr>orig_u = None, orig_v = None, travel_time = None, traffic_mult = None, penalty = None,
     closed = None, bridge = None, tunnel = None, highway = None, maxheight = None, maxweight = None,
     lanes = None, u_x = 0, u_y = 0, v_x = 0, v_y = 0\<rparr>"

definition road :: "int \<Rightarrow> int \<Rightarrow> real \<Rightarrow> bool \<Rightarrow> real \<Rightarrow> real \<Rightarrow> seg" where
  "road u v t c ux vx = seg0\<lparr>orig_u := Some u, orig_v := Some v, travel_time := Some t,
      closed := Some c, highway := Some ''primary'', u_x := ux, v_x := vx\<rparr>"

text \<open>One bridge segment with a declared maximum height of 3.0.\<close>

definition bridge_graph :: edge_graph where
  "bridge_graph = \<lparr>eg_nodes = [(1,2,0)],
     eg_attr = (\<lambda>_. seg0)((1,2,0) := (road 1 2 5 False 0 100)\<lparr>bridge := Some ''yes'', maxheight := Some 3\<rparr>),
     eg_edges = [], eg_turn = (\<lambda>_ _. None)\<rparr>"

text \<open>
  The diamond: from node 0 to node 3 through node 1 (two segments of 5 seconds) or through
  node 2 (two segments of 1 second, the first of them closed); every turn costs 1 second.
\<close>

definition diamond :: edge_graph where
  "diamond = \<lparr>eg_nodes = [(0,1,0), (1,3,0), (0,2,0), (2,3,0)],
     eg_attr = (\<lambda>_. seg0)((0,1,0) := road 0 1 5 False 0 100, (1,3,0) := road 1 3 5 False 100 200,
                            (0,2,0) := road 0 2 1 True 0 100, (2,3,0) := road 2 3 1 False 100 200),
     eg_edges = [((0,1,0),(1,3,0)), ((0,2,0),(2,3,0))],
     eg_turn = (\<lambda>_ _. Some 1)\<rparr>"

text \<open>
  From node 0 to node 4: the direct way 0-1-3-4 costs 13 seconds, the detour 0-2-1-3-4 costs
  11. Node 2 lies 300 metres from node 4, nodes 1 and 3 lie 60 and 30 metres from it.
\<close>

definition detour :: edge_graph where
  "detour = \<lparr>eg_nodes = [(0,1,0), (0,2,0), (2,1,0), (1,3,0), (3,4,0)],
     eg_attr = (\<lambda>_. seg0)((0,1,0) := road 0 1 5 False 0 60, (0,2,0) := road 0 2 1 False 0 300,
          (2,1,0) := road 2 1 1 False 300 60, (1,3,0) := road 1 3 1 False 60 30, (3,4,0) := road 3 4 5 False 30 0),
     eg_edges = [((0,1,0),(1,3,0)), ((0,2,0),(2,1,0)), ((2,1,0),(1,3,0)), ((1,3,0),(3,4,0))],
     eg_turn = (\<lambda>_ _. Some 1)\<rparr>"

text \<open>The least cost of the way from the end of each segment of \<open>detour\<close> to node 4.\<close>

definition detour_remaining :: "enode \<Rightarrow> real" where
  "detour_remaining n =
     (if n = (1,3,0) then 6 else if n = (0,1,0) then 8 else if n = (2,1,0) then 8
      else if n = (0,2,0) then 10 else 0)"

text \<open>Two segments with no transition between them.\<close>

definition apart :: edge_graph where
  "apart = \<lparr>eg_nodes = [(1,2,0), (3,4,0)],
     eg_attr = (\<lambda>_. seg0)((1,2,0) := road 1 2 5 False 0 100, (3,4,0) := road 3 4 5 False 200 300),
     eg_edges = [],
     eg_turn = (\<lambda>_ _. None)\<rparr>"

section \<open>Evaluation on concrete inputs\<close>

lemma hypot_0 [simp]: "hypot a 0 = \<bar>a\<bar>"
  by (simp add: hypot_def)

lemmas graph_defs = seg0_def road_def enodes_from_start_def target_nodes_def successors_def
  predecessors_def has_edge_def turn_cost_def enode_travel_time_def is_enode_closed_def
  skip_closed_def

lemmas validate_defs = validate_single_edge_def bridge_rejects_def tunnel_rejects_def
  lanes_rejects_def is_yes_def exceeds_def soft_penalty_def add_penalty_if_def
  allow_list_check_def closed_or_unknown_def non_preferred_penalty_def c_get_def Let_def

lemmas search_defs = apply_constraints_def init_state_def heappush_def while_loop.simps
  cap_reached_def gt_get_def lt_get_def build_result_def prev_chain.simps prev_get_def
  no_route_def dijkstra_route_def dijkstra_search_def dijkstra_iter_def dijkstra_seed_def
  dijkstra_relax_def astar_route_def astar_search_def astar_iter_def astar_seed_def
  astar_relax_def heuristic_def heuristic_backward_def bidirectional_astar_route_def
  bidi_search_def bidi_iter_def bidi_result_def init_bstate_def fwd_seed_def bwd_seed_def
  fwd_relax_def bwd_relax_def meet_def forward_half_def backward_half_def bidi_cap_reached_def

lemmas plan_defs = run_search_def plan_route_def VEHICLE_PROFILES_def c_pop_def upto.simps
  relax_constraints_def infeasible_def

section \<open>Constraint engine and relaxation\<close>

lemma map_of_filter_fst:
  "map_of (filter (\<lambda>kv. P (fst kv)) c) key = (if P key then map_of c key else None)"
  by (induction c) auto

lemma c_get_c_pop: "c_get (c_pop k c) key = (if key = k then None else c_get c key)"
  unfolding c_get_def c_pop_def
  using map_of_filter_fst [of "\<lambda>x. x \<noteq> k" c key] by simp

lemma c_get_keep: "c_get (filter (\<lambda>kv. fst kv = k) c) key = (if key = k then c_get c key else None)"
  unfolding c_get_def
  using map_of_filter_fst [of "\<lambda>x. x = k" c key] by simp

text \<open>
  C8. For every profile, the constraint set of relaxation level 3 has no key but
  \<open>avoid_closed\<close>, and looking a key up in it gives the profile's \<open>avoid_closed\<close> entry for
  that key and nothing for every other key.
\<close>

theorem relax_level3_only_avoid_closed:
  "fst ` set (relax_constraints profile 3) \<subseteq> {''avoid_closed''} \<and>
   c_get (relax_constraints profile 3) key =
     (if key = ''avoid_closed'' then c_get profile ''avoid_closed'' else None)"
proof -
  have "c_get (relax_constraints profile 3) key =
     (if key = ''avoid_closed'' then c_get profile ''avoid_closed'' else None)"
    unfolding relax_constraints_def
    by (simp add: c_get_c_pop c_get_keep del: filter_filter)
  moreover have "fst ` set (relax_constraints profile 3) \<subseteq> {''avoid_closed''}"
    unfolding relax_constraints_def by auto
  ultimately show ?thesis by simp
qed

theorem relax_level3_witness:
  "relax_constraints [(''max_height'', VNum 3), (''avoid_closed'', VBool True), (''min_lanes'', VNum 1)] 3
     = [(''avoid_closed'', VBool True)] \<and>
   c_get (relax_constraints [(''max_height'', VNum 3), (''avoid_closed'', VBool True), (''min_lanes'', VNum 1)] 3)
     ''min_lanes'' = None"
  using relax_level3_only_avoid_closed
    [of "[(''max_height'', VNum 3), (''avoid_closed'', VBool True), (''min_lanes'', VNum 1)]" "''min_lanes''"]
  by (simp add: relax_constraints_def c_pop_def)

text \<open>
  C2, as the claim states it, fails: a bridge segment with a declared maximum height of 3.0 is
  accepted for a vehicle limited to 3.5, because 3.0 does not exceed 3.5.
\<close>

theorem bridge_height_35_counterexample:
  "validate_single_edge bridge_graph (1,2,0) [(''max_height'', VNum (7/2))] = Inr (True, Fin 0) \<and>
   validate_single_edge bridge_graph (1,2,0) [(''max_height'', VNum (7/2))] \<noteq> Inr (False, PInf)"
  by (simp add: validate_defs bridge_graph_def road_def seg0_def)

text \<open>
  C2, amended. For a bridge segment with a declared maximum height of 3.0 that is no tunnel,
  and a constraint set that holds the height limit only, the segment is rejected with
  \<open>(False, inf)\<close> exactly when 3.0 exceeds the limit: it is accepted with a limit of 3.5,
  rejected with a limit of 2.5 and accepted with a limit of 4.0.
\<close>

theorem bridge_height_check:
  assumes "is_yes (bridge (eg_attr EG e))" and "maxheight (eg_attr EG e) = Some 3"
    and "\<not> is_yes (tunnel (eg_attr EG e))"
  shows "validate_single_edge EG e [(''max_height'', VNum h)] =
           (if 3 > h then Inr (False, PInf) else Inr (True, Fin 0)) \<and>
         validate_single_edge EG e [(''max_height'', VNum (7/2))] = Inr (True, Fin 0) \<and>
         validate_single_edge EG e [(''max_height'', VNum (5/2))] = Inr (False, PInf) \<and>
         validate_single_edge EG e [(''max_height'', VNum 4)] = Inr (True, Fin 0)"
  using assms by (simp add: validate_defs)

theorem bridge_height_check_witness:
  "validate_single_edge bridge_graph (1,2,0) [(''max_height'', VNum (5/2))] = Inr (False, PInf) \<and>
   validate_single_edge bridge_graph (1,2,0) [(''max_height'', VNum 4)] = Inr (True, Fin 0)"
proof -
  have a: "is_yes (bridge (eg_attr bridge_graph (1,2,0)))"
    by (simp add: is_yes_def bridge_graph_def road_def seg0_def)
  have b: "maxheight (eg_attr bridge_graph (1,2,0)) = Some 3"
    by (simp add: bridge_graph_def road_def seg0_def)
  have c: "\<not> is_yes (tunnel (eg_attr bridge_graph (1,2,0)))"
    by (simp add: is_yes_def bridge_graph_def road_def seg0_def)
  show ?thesis
    using bridge_height_check [OF a b c] by simp
qed

lemma allow_list_check_add:
  "allow_list_check key val c (p + q) =
     (case allow_list_check key val c p of Inl e \<Rightarrow> Inl e | Inr r \<Rightarrow> Inr (r + q))"
  by (simp add: allow_list_check_def add_penalty_if_def split: option.splits sum.splits)

lemma allow_lists_add:
  "allow_lists data c (p + q) =
     (case allow_lists data c p of Inl e \<Rightarrow> Inl e | Inr r \<Rightarrow> Inr (r + q))"
  by (simp add: allow_lists_def allow_list_check_add split: sum.splits)

lemma allow_lists_closed [simp]: "allow_lists (data\<lparr>closed := b\<rparr>) c p = allow_lists data c p"
  by (simp add: allow_lists_def split: sum.splits)

lemma soft_penalty_closed:
  assumes "truthy (c_get c ''avoid_closed'')" and "closed_or_unknown data"
  shows "soft_penalty data c =
     (case non_preferred_penalty c of Inl e \<Rightarrow> Inl e | Inr npp \<Rightarrow> allow_lists data c (0 + npp + npp))"
  using assms by (cases "c_get c ''avoid_closed''")
    (simp_all add: soft_penalty_def add_penalty_if_def allow_lists_def split: sum.splits)

lemma soft_penalty_open:
  assumes "\<not> closed_or_unknown data"
  shows "soft_penalty data c = allow_lists data c 0"
  using assms by (simp add: soft_penalty_def add_penalty_if_def allow_lists_def split: sum.splits)

lemma hard_checks_closed [simp]:
  "bridge_rejects (data\<lparr>closed := b\<rparr>) c = bridge_rejects data c"
  "tunnel_rejects (data\<lparr>closed := b\<rparr>) c = tunnel_rejects data c"
  "lanes_rejects (data\<lparr>closed := b\<rparr>) c = lanes_rejects data c"
  by (simp_all add: bridge_rejects_def tunnel_rejects_def lanes_rejects_def
      split: sum.splits bool.splits option.splits)

lemma validate_accepts:
  "validate_single_edge EG e c = Inr (True, Fin p) \<longleftrightarrow>
     bridge_rejects (eg_attr EG e) c = Inr False \<and> tunnel_rejects (eg_attr EG e) c = Inr False \<and>
     lanes_rejects (eg_attr EG e) c = Inr False \<and> soft_penalty (eg_attr EG e) c = Inr p"
  by (auto simp: validate_single_edge_def Let_def split: sum.splits bool.splits)

lemma closed_twice_aux:
  assumes av: "truthy (c_get c ''avoid_closed'')"
    and cl: "closed_or_unknown (eg_attr EG e)"
    and ok: "validate_single_edge EG e c = Inr (True, Fin p)"
  shows "\<exists>npp p0. non_preferred_penalty c = Inr npp \<and>
           validate_single_edge (set_closed EG e (Some False)) e c = Inr (True, Fin p0) \<and>
           p = p0 + npp + npp"
proof -
  let ?d = "eg_attr EG e"
  from ok have h: "bridge_rejects ?d c = Inr False" "tunnel_rejects ?d c = Inr False"
    "lanes_rejects ?d c = Inr False" and sp: "soft_penalty ?d c = Inr p"
    by (simp_all add: validate_accepts)
  from sp soft_penalty_closed[OF av cl] obtain npp where
    npp: "non_preferred_penalty c = Inr npp" and al: "allow_lists ?d c (0 + npp + npp) = Inr p"
    by (auto split: sum.splits)
  have "allow_lists ?d c (0 + (npp + npp)) =
          (case allow_lists ?d c 0 of Inl e \<Rightarrow> Inl e | Inr r \<Rightarrow> Inr (r + (npp + npp)))"
    by (rule allow_lists_add)
  with al obtain p0 where p0: "allow_lists ?d c 0 = Inr p0" and pp: "p = p0 + (npp + npp)"
    by (auto split: sum.splits)
  have "\<not> closed_or_unknown (?d\<lparr>closed := Some False\<rparr>)" by (simp add: closed_or_unknown_def)
  then have "soft_penalty (?d\<lparr>closed := Some False\<rparr>) c = Inr p0"
    using p0 by (simp add: soft_penalty_open)
  then have "validate_single_edge (set_closed EG e (Some False)) e c = Inr (True, Fin p0)"
    using h by (simp add: validate_accepts set_closed_def)
  with npp pp show ?thesis by auto
qed

text \<open>
  C9. With \<open>avoid_closed\<close> set and a segment marked closed that passes the hard checks, the
  penalty that \<open>validate_single_edge\<close> returns is the penalty of the same segment when it is
  open plus the non-preferred-usage penalty added twice.
\<close>

theorem closed_segment_penalised_twice:
  assumes "truthy (c_get c ''avoid_closed'')"
    and "closed (eg_attr EG e) = Some True"
    and "validate_single_edge EG e c = Inr (True, Fin p)"
  shows "\<exists>npp p0. non_preferred_penalty c = Inr npp \<and>
           validate_single_edge (set_closed EG e (Some False)) e c = Inr (True, Fin p0) \<and>
           p = p0 + npp + npp"
  using assms closed_twice_aux [of c EG e p] by (simp add: closed_or_unknown_def)

theorem closed_segment_penalised_twice_witness:
  "\<exists>npp p0. non_preferred_penalty [(''avoid_closed'', VBool True), (''non_preferred_penalty'', VNum 3)] = Inr npp \<and>
     validate_single_edge (set_closed diamond (0,2,0) (Some False)) (0,2,0)
       [(''avoid_closed'', VBool True), (''non_preferred_penalty'', VNum 3)] = Inr (True, Fin p0) \<and>
     (6::real) = p0 + npp + npp"
proof -
  let ?c = "[(''avoid_closed'', VBool True), (''non_preferred_penalty'', VNum 3)]"
  have a: "truthy (c_get ?c ''avoid_closed'')" by (simp add: c_get_def)
  have b: "closed (eg_attr diamond (0,2,0)) = Some True" by (simp add: diamond_def road_def seg0_def)
  have c: "validate_single_edge diamond (0,2,0) ?c = Inr (True, Fin 6)"
    by (simp add: validate_defs diamond_def road_def seg0_def)
  show ?thesis using closed_segment_penalised_twice [OF a b c] .
qed



section \<open>Loops and the expansion cap\<close>



lemma dijkstra_relax_fields [simp]:
  "s_expanded (dijkstra_relax EG ac c u v s) = s_expanded s"
  "s_visited (dijkstra_relax EG ac c u v s) = s_visited s"
  "s_best_target (dijkstra_relax EG ac c u v s) = s_best_target s"
  "s_best_cost (dijkstra_relax EG ac c u v s) = s_best_cost s"
  by (simp_all add: dijkstra_relax_def Let_def)

lemma fold_dijkstra_relax_fields [simp]:
  "s_expanded (fold (dijkstra_relax EG ac c u) vs s) = s_expanded s"
  "s_visited (fold (dijkstra_relax EG ac c u) vs s) = s_visited s"
  "s_best_target (fold (dijkstra_relax EG ac c u) vs s) = s_best_target s"
  "s_best_cost (fold (dijkstra_relax EG ac c u) vs s) = s_best_cost s"
  by (induction vs arbitrary: s) simp_all

lemma astar_relax_fields [simp]:
  "s_expanded (astar_relax EG ac h c u v s) = s_expanded s"
  "s_visited (astar_relax EG ac h c u v s) = s_visited s"
  "s_best_target (astar_relax EG ac h c u v s) = s_best_target s"
  "s_best_cost (astar_relax EG ac h c u v s) = s_best_cost s"
  by (simp_all add: astar_relax_def Let_def)

lemma fold_astar_relax_fields [simp]:
  "s_expanded (fold (astar_relax EG ac h c u) vs s) = s_expanded s"
  "s_visited (fold (astar_relax EG ac h c u) vs s) = s_visited s"
  "s_best_target (fold (astar_relax EG ac h c u) vs s) = s_best_target s"
  "s_best_cost (fold (astar_relax EG ac h c u) vs s) = s_best_cost s"
  by (induction vs arbitrary: s) simp_all

lemma dijkstra_seed_best [simp]: "s_best_target (dijkstra_seed EG ac e s) = s_best_target s"
  by (simp add: dijkstra_seed_def Let_def)

lemma fold_dijkstra_seed_best [simp]: "s_best_target (fold (dijkstra_seed EG ac) es s) = s_best_target s"
  by (induction es arbitrary: s) simp_all

lemma astar_seed_best [simp]: "s_best_target (astar_seed EG ac h e s) = s_best_target s"
  by (simp add: astar_seed_def Let_def)

lemma fold_astar_seed_best [simp]: "s_best_target (fold (astar_seed EG ac h) es s) = s_best_target s"
  by (induction es arbitrary: s) simp_all

lemma dijkstra_iter_Continue_best:
  "dijkstra_iter EG T ac mv s = Continue s' \<Longrightarrow> s_best_target s' = s_best_target s"
  by (auto simp: dijkstra_iter_def split: option.splits prod.splits if_splits)












section \<open>Invariants of the searches\<close>

subsection \<open>Heaps and loops\<close>

lemma heappop_Some:
  assumes "heappop h = Some (x, rest)"
  shows "x \<in> set h" and "set rest \<subseteq> set h" and "set h \<subseteq> insert x (set rest)" and "\<forall>y \<in> set h. x \<le> y"
proof -
  from assms obtain a t where h: "h = a # t" by (cases h) auto
  with assms have x0: "x = fold min t a" and r: "rest = remove1 x h"
    by (auto simp: Let_def simp del: remove1.simps)
  from x0 have x: "x = Min (set h)" using Min.set_eq_fold[of a t] h by simp
  show "x \<in> set h" using x h Min_in[of "set h"] by simp
  show "set rest \<subseteq> set h" using r by (simp add: set_remove1_subset)
  show "set h \<subseteq> insert x (set rest)"
  proof
    fix y assume "y \<in> set h"
    then show "y \<in> insert x (set rest)" using r in_set_remove1[of y x h] by (cases "y = x") auto
  qed
  show "\<forall>y \<in> set h. x \<le> y" using x by simp
qed

lemma heappop_None: "heappop h = None \<longleftrightarrow> h = []"
  by (cases h) (simp_all add: Let_def)

lemma while_loop_rule:
  assumes run: "while_loop body s0 = Some s"
    and init: "I s0"
    and step: "\<And>s s'. I s \<Longrightarrow> body s = Continue s' \<Longrightarrow> I s'"
    and brk: "\<And>s s'. I s \<Longrightarrow> body s = Break s' \<Longrightarrow> Q s'"
  shows "Q s"
proof -
  have "body = body \<longrightarrow> I s0 \<longrightarrow> Q s"
  proof (rule while_loop.raw_induct[where P = "\<lambda>b x y. b = body \<longrightarrow> I x \<longrightarrow> Q y", OF _ run])
    fix wl :: "('a \<Rightarrow> 'a iter) \<Rightarrow> 'a \<Rightarrow> 'a option" and b x y
    assume IH: "\<And>b' x' y'. wl b' x' = Some y' \<Longrightarrow> b' = body \<longrightarrow> I x' \<longrightarrow> Q y'"
      and eq: "(case b x of Break s' \<Rightarrow> Some s' | Continue s' \<Rightarrow> wl b s') = Some y"
    show "b = body \<longrightarrow> I x \<longrightarrow> Q y"
    proof (intro impI)
      assume b: "b = body" and i: "I x"
      show "Q y"
      proof (cases "body x")
        case (Break s')
        with eq b have "y = s'" by simp
        with brk[OF i Break] show ?thesis by simp
      next
        case (Continue s')
        with eq b have "wl body s' = Some y" by simp
        from IH[OF this] step[OF i Continue] show ?thesis by simp
      qed
    qed
  qed
  with init show ?thesis by simp
qed

subsection \<open>Abstraction of the relaxation steps\<close>

lemma abs_d_seed: "abs_d (dijkstra_seed EG ac en s) = abs_seed EG ac en (abs_d s)"
  by (simp add: abs_d_def dijkstra_seed_def abs_seed_def heappush_def Let_def)

lemma abs_d_relax: "abs_d (dijkstra_relax EG ac g u v s) = abs_relax EG ac (turn_cost EG) g u v (abs_d s)"
  by (simp add: abs_d_def dijkstra_relax_def abs_relax_def heappush_def Let_def)







lemma fold_abs:
  assumes "\<And>x s. ab (f x s) = g x (ab s)"
  shows "ab (fold f xs s) = fold g xs (ab s)"
  by (induction xs arbitrary: s) (simp_all add: assms)

lemma abs_f_bwd_seed [simp]: "abs_f (bwd_seed EG ac h en s) = abs_f s"
  by (simp add: abs_f_def bwd_seed_def Let_def)
lemma abs_f_bwd_relax [simp]: "abs_f (bwd_relax EG ac h g u v s) = abs_f s"
  by (simp add: abs_f_def bwd_relax_def Let_def)
lemma abs_b_fwd_seed [simp]: "abs_b (fwd_seed EG ac h en s) = abs_b s"
  by (simp add: abs_b_def fwd_seed_def Let_def)
lemma abs_b_fwd_relax [simp]: "abs_b (fwd_relax EG ac h g u v s) = abs_b s"
  by (simp add: abs_b_def fwd_relax_def Let_def)

lemma fold_same:
  assumes "\<And>x s. ab (f x s) = ab s"
  shows "ab (fold f xs s) = ab s"
  by (induction xs arbitrary: s) (simp_all add: assms)

subsection \<open>The predecessor table\<close>













subsection \<open>dijkstra\_route and astar\_route\<close>

lemma abs_d_pop [simp]:
  "abs_d (s\<lparr>s_heap := rest\<rparr>) = (set rest, s_dist s, s_prev s)"
  "abs_d (s\<lparr>s_heap := rest, s_expanded := k, s_visited := V\<rparr>) = (set rest, s_dist s, s_prev s)"
  "abs_d (s\<lparr>s_heap := rest, s_expanded := k, s_best_target := bt, s_best_cost := bc\<rparr>) = (set rest, s_dist s, s_prev s)"
  by (simp_all add: abs_d_def)

lemma abs_a_pop [simp]:
  "abs_a (s\<lparr>s_heap := rest\<rparr>) = (snd ` set rest, s_dist s, s_prev s)"
  "abs_a (s\<lparr>s_heap := rest, s_visited := V\<rparr>) = (snd ` set rest, s_dist s, s_prev s)"
  "abs_a (s\<lparr>s_heap := rest, s_visited := V, s_expanded := k\<rparr>) = (snd ` set rest, s_dist s, s_prev s)"
  "abs_a (s\<lparr>s_heap := rest, s_visited := V, s_expanded := k, s_best_target := bt, s_best_cost := bc\<rparr>)
     = (snd ` set rest, s_dist s, s_prev s)"
  by (simp_all add: abs_a_def)

lemma init_state_best [simp]: "s_best_target init_state = None"
  by (simp add: init_state_def)

lemma abs_d_init: "abs_d init_state = ({}, Map.empty, Map.empty)"
  by (simp add: abs_d_def init_state_def)


lemma abs_d_fold_seed:
  "abs_d (fold (dijkstra_seed EG ac) S s) = fold (abs_seed EG ac) S (abs_d s)"
  by (rule fold_abs) (rule abs_d_seed)


lemma abs_d_fold_relax:
  "abs_d (fold (dijkstra_relax EG ac g u) vs s) = fold (abs_relax EG ac (turn_cost EG) g u) vs (abs_d s)"
  by (rule fold_abs) (rule abs_d_relax)


lemma s_prev_abs_d: "s_prev s = snd (snd (abs_d s))" by (simp add: abs_d_def)
lemma s_prev_abs_a: "s_prev s = snd (snd (abs_a s))" by (simp add: abs_a_def)








subsection \<open>bidirectional\_astar\_route\<close>

lemma fwd_relax_fields [simp]:
  "b_expanded (fwd_relax EG ac h g u v s) = b_expanded s"
  "b_best_cost (fwd_relax EG ac h g u v s) = b_best_cost s"
  "meeting_node (fwd_relax EG ac h g u v s) = meeting_node s"
  by (simp_all add: fwd_relax_def Let_def)

lemma bwd_relax_fields [simp]:
  "b_expanded (bwd_relax EG ac h g u v s) = b_expanded s"
  "b_best_cost (bwd_relax EG ac h g u v s) = b_best_cost s"
  "meeting_node (bwd_relax EG ac h g u v s) = meeting_node s"
  by (simp_all add: bwd_relax_def Let_def)

lemma fold_fwd_relax_fields [simp]:
  "b_expanded (fold (fwd_relax EG ac h g u) vs s) = b_expanded s"
  "b_best_cost (fold (fwd_relax EG ac h g u) vs s) = b_best_cost s"
  "meeting_node (fold (fwd_relax EG ac h g u) vs s) = meeting_node s"
  by (induction vs arbitrary: s) simp_all

lemma fold_bwd_relax_fields [simp]:
  "b_expanded (fold (bwd_relax EG ac h g u) vs s) = b_expanded s"
  "b_best_cost (fold (bwd_relax EG ac h g u) vs s) = b_best_cost s"
  "meeting_node (fold (bwd_relax EG ac h g u) vs s) = meeting_node s"
  by (induction vs arbitrary: s) simp_all

lemma fwd_seed_fields [simp]:
  "b_best_cost (fwd_seed EG ac h en s) = b_best_cost s"
  "meeting_node (fwd_seed EG ac h en s) = meeting_node s"
  by (simp_all add: fwd_seed_def Let_def)

lemma bwd_seed_fields [simp]:
  "b_best_cost (bwd_seed EG ac h en s) = b_best_cost s"
  "meeting_node (bwd_seed EG ac h en s) = meeting_node s"
  by (simp_all add: bwd_seed_def Let_def)

lemma fold_fwd_seed_fields [simp]:
  "b_best_cost (fold (fwd_seed EG ac h) ens s) = b_best_cost s"
  "meeting_node (fold (fwd_seed EG ac h) ens s) = meeting_node s"
  by (induction ens arbitrary: s) simp_all

lemma fold_bwd_seed_fields [simp]:
  "b_best_cost (fold (bwd_seed EG ac h) ens s) = b_best_cost s"
  "meeting_node (fold (bwd_seed EG ac h) ens s) = meeting_node s"
  by (induction ens arbitrary: s) simp_all

lemma abs_meet [simp]:
  "abs_f (meet g e other s) = abs_f s" "abs_b (meet g e other s) = abs_b s"
  by (simp_all add: meet_def abs_f_def abs_b_def Let_def split: option.splits)



lemma abs_b_fold_fwd_relax [simp]: "abs_b (fold (fwd_relax EG ac h g u) vs s) = abs_b s"
  by (rule fold_same) simp

lemma abs_f_fold_bwd_relax [simp]: "abs_f (fold (bwd_relax EG ac h g u) vs s) = abs_f s"
  by (rule fold_same) simp



lemma abs_b_fold_fwd_seed [simp]: "abs_b (fold (fwd_seed EG ac h) S s) = abs_b s"
  by (rule fold_same) simp

lemma abs_f_fold_bwd_seed [simp]: "abs_f (fold (bwd_seed EG ac h) S s) = abs_f s"
  by (rule fold_same) simp

lemma init_bstate_meeting [simp]: "meeting_node init_bstate = None"
  by (simp add: init_bstate_def)


lemma abs_fb_pop [simp]:
  "abs_f (s\<lparr>open_fwd := rest, b_expanded := k\<rparr>) = (snd ` set rest, g_fwd s, prev_fwd s)"
  "abs_b (s\<lparr>open_fwd := rest, b_expanded := k\<rparr>) = abs_b s"
  "abs_b (s\<lparr>open_bwd := rest, b_expanded := k\<rparr>) = (snd ` set rest, g_bwd s, prev_bwd s)"
  "abs_f (s\<lparr>open_bwd := rest, b_expanded := k\<rparr>) = abs_f s"
  by (simp_all add: abs_f_def abs_b_def)





lemma prev_bwd_abs: "prev_bwd s = snd (snd (abs_b s))" by (simp add: abs_b_def)











subsection \<open>The routes of the three searches and of the planner pass the filter\<close>







subsection \<open>The optimality invariant\<close>

lemma lt_get_iff: "lt_get x d \<longleftrightarrow> (d = None \<or> (\<exists>y. d = Some y \<and> x < y))"
  by (cases d) (simp_all add: lt_get_def)

lemma gt_get_iff: "gt_get x d \<longleftrightarrow> (\<exists>y. d = Some y \<and> y < x)"
  by (cases d) (auto simp: gt_get_def)

text \<open>Removing a queue entry.\<close>

lemma opt_inv_drop:
  assumes inv: "opt_inv EG ac h S T H ds vis"
    and sub: "H' \<subseteq> H" and rest: "H \<subseteq> insert x H'"
    and unused: "snd x \<in> vis \<or> ds (snd x) \<noteq> Some (fst x)"
  shows "opt_inv EG ac h S T H' ds vis"
proof -
  from inv have e: "inv_entries H ds" and q: "inv_queued H ds vis" and s: "inv_settled h H ds vis"
    and rest_inv: "inv_relaxed EG ac ds vis (\<lambda>w v. True)" "inv_seeds EG ac S ds" "vis \<inter> set T = {}"
    by (simp_all add: opt_inv_def)
  have e': "inv_entries H' ds" using e sub unfolding inv_entries_def by blast
  have q': "inv_queued H' ds vis"
    unfolding inv_queued_def
  proof (intro allI impI)
    fix n d assume a: "ds n = Some d" "n \<notin> vis"
    with q have "(d, n) \<in> H" unfolding inv_queued_def by blast
    moreover have "(d, n) \<noteq> x" using unused a by auto
    ultimately show "(d, n) \<in> H'" using rest by blast
  qed
  have s': "inv_settled h H' ds vis" using s sub unfolding inv_settled_def by blast
  from e' q' s' rest_inv show ?thesis by (simp add: opt_inv_def)
qed

text \<open>Popping the least entry when it is not stale: the segment is settled.\<close>

lemma opt_inv_pop:
  assumes inv: "opt_inv EG ac h S T H ds vis"
    and x: "(c, u) \<in> H" and least: "\<forall>y \<in> H. c + h u \<le> fst y + h (snd y)"
    and fresh: "\<not> gt_get c (ds u)" and nt: "u \<notin> set T"
    and sub: "H' \<subseteq> H" and rest: "H \<subseteq> insert (c, u) H'"
  shows "opt_mid EG ac h S T u c {} H' ds (insert u vis)"
proof -
  from inv have e: "inv_entries H ds" and q: "inv_queued H ds vis" and s: "inv_settled h H ds vis"
    and r: "inv_relaxed EG ac ds vis (\<lambda>w v. True)" and sd: "inv_seeds EG ac S ds" and t: "vis \<inter> set T = {}"
    by (simp_all add: opt_inv_def)
  from e x obtain d where "ds u = Some d" "d \<le> c" unfolding inv_entries_def by fastforce
  with fresh have du: "ds u = Some c" by (auto simp: gt_get_iff)
  have e': "inv_entries H' ds" using e sub unfolding inv_entries_def by blast
  have q': "inv_queued H' ds (insert u vis)"
    unfolding inv_queued_def
  proof (intro allI impI)
    fix n d assume a: "ds n = Some d" "n \<notin> insert u vis"
    with q have "(d, n) \<in> H" unfolding inv_queued_def by blast
    moreover have "(d, n) \<noteq> (c, u)" using a by auto
    ultimately show "(d, n) \<in> H'" using rest by blast
  qed
  have s': "inv_settled h H' ds (insert u vis)"
    unfolding inv_settled_def
  proof
    fix n assume "n \<in> insert u vis"
    then show "\<exists>d. ds n = Some d \<and> (\<forall>x \<in> H'. d + h n \<le> fst x + h (snd x))"
    proof
      assume "n = u"
      with du least sub show ?thesis by blast
    next
      assume "n \<in> vis"
      with s sub show ?thesis unfolding inv_settled_def by blast
    qed
  qed
  have b': "inv_bound h ds (insert u vis) (c + h u)"
    unfolding inv_bound_def
  proof
    fix n assume "n \<in> insert u vis"
    then show "\<exists>d. ds n = Some d \<and> d + h n \<le> c + h u"
    proof
      assume "n = u"
      with du show ?thesis by simp
    next
      assume "n \<in> vis"
      with s obtain d where "ds n = Some d" "\<forall>y \<in> H. d + h n \<le> fst y + h (snd y)"
        unfolding inv_settled_def by blast
      with x show ?thesis by fastforce
    qed
  qed
  have r': "inv_relaxed EG ac ds (insert u vis) (\<lambda>w v. w = u \<longrightarrow> v \<in> {})"
    using r unfolding inv_relaxed_def by blast
  have t': "insert u vis \<inter> set T = {}" using t nt by simp
  from e' q' s' b' r' sd t' du show ?thesis by (simp add: opt_mid_def)
qed

text \<open>Relaxing one transition out of the segment under expansion.\<close>

lemma opt_mid_relax:
  assumes mid: "opt_mid EG ac h S T u c D H ds vis"
    and v: "v \<in> set (successors EG u)"
    and mono: "mono_h EG ac h"
    and step: "abs_relax EG ac (turn_cost EG) c u v (H, ds, pv) = (H', ds', pv')"
  shows "opt_mid EG ac h S T u c (insert v D) H' ds' vis"
proof -
  let ?cand = "c + turn_cost EG u v + enode_travel_time EG v"
  from mid have e: "inv_entries H ds" and q: "inv_queued H ds vis" and s: "inv_settled h H ds vis"
    and b: "inv_bound h ds vis (c + h u)"
    and r: "inv_relaxed EG ac ds vis (\<lambda>w v. w = u \<longrightarrow> v \<in> D)"
    and sd: "inv_seeds EG ac S ds" and t: "vis \<inter> set T = {}" and du: "ds u = Some c" and uv: "u \<in> vis"
    by (simp_all add: opt_mid_def)
  show ?thesis
  proof (cases "skip_closed EG ac v")
    case True
    with step have same: "H' = H" "ds' = ds" by (simp_all add: abs_relax_def)
    have "inv_relaxed EG ac ds vis (\<lambda>w x. w = u \<longrightarrow> x \<in> insert v D)"
      using r True unfolding inv_relaxed_def by blast
    with e q s b sd t du uv same show ?thesis by (simp add: opt_mid_def)
  next
    case False
    with mono v have hu: "h u \<le> turn_cost EG u v + enode_travel_time EG v + h v"
      unfolding mono_h_def by blast
    show ?thesis
    proof (cases "lt_get ?cand (ds v)")
      case nolt: False
      with False step have same: "H' = H" "ds' = ds" by (simp_all add: abs_relax_def)
      from nolt obtain y where y: "ds v = Some y" "y \<le> ?cand" by (auto simp: lt_get_iff)
      have "inv_relaxed EG ac ds vis (\<lambda>w x. w = u \<longrightarrow> x \<in> insert v D)"
        unfolding inv_relaxed_def
      proof (intro ballI impI)
        fix w x assume a: "w \<in> vis" "x \<in> set (successors EG w)" "\<not> skip_closed EG ac x"
          "w = u \<longrightarrow> x \<in> insert v D"
        show "\<exists>dw dv. ds w = Some dw \<and> ds x = Some dv \<and> dv \<le> dw + turn_cost EG w x + enode_travel_time EG x"
        proof (cases "w = u \<and> x = v")
          case True
          with du y show ?thesis by simp
        next
          case False
          with a have "w = u \<longrightarrow> x \<in> D" by blast
          with r a show ?thesis unfolding inv_relaxed_def by blast
        qed
      qed
      with e q s b sd t du uv same show ?thesis by (simp add: opt_mid_def)
    next
      case lt: True
      with False step have new: "H' = insert (?cand, v) H" "ds' = ds(v \<mapsto> ?cand)"
        by (simp_all add: abs_relax_def)
      have vn: "v \<notin> vis"
      proof
        assume "v \<in> vis"
        with b obtain d where d: "ds v = Some d" "d + h v \<le> c + h u" unfolding inv_bound_def by blast
        with hu have "d \<le> ?cand" by simp
        with d lt show False by (simp add: lt_get_iff)
      qed
      have old: "\<And>d. ds v = Some d \<Longrightarrow> ?cand < d" using lt by (auto simp: lt_get_iff)
      have e': "inv_entries H' ds'"
        unfolding inv_entries_def new
      proof
        fix x assume "x \<in> insert (?cand, v) H"
        then show "\<exists>d. (ds(v \<mapsto> ?cand)) (snd x) = Some d \<and> d \<le> fst x"
        proof
          assume "x = (?cand, v)" then show ?thesis by simp
        next
          assume xh: "x \<in> H"
          with e obtain d where d: "ds (snd x) = Some d" "d \<le> fst x" unfolding inv_entries_def by blast
          show ?thesis
          proof (cases "snd x = v")
            case True
            with d old[of d] show ?thesis by simp
          next
            case False
            with d show ?thesis by simp
          qed
        qed
      qed
      have q': "inv_queued H' ds' vis"
        unfolding inv_queued_def new
      proof (intro allI impI)
        fix n d assume a: "(ds(v \<mapsto> ?cand)) n = Some d" "n \<notin> vis"
        show "(d, n) \<in> insert (?cand, v) H"
        proof (cases "n = v")
          case True with a show ?thesis by simp
        next
          case False
          with a have "ds n = Some d" by simp
          with q a(2) have "(d, n) \<in> H" unfolding inv_queued_def by blast
          then show ?thesis by simp
        qed
      qed
      have s': "inv_settled h H' ds' vis"
        unfolding inv_settled_def new
      proof
        fix n assume nv: "n \<in> vis"
        with vn have ne: "n \<noteq> v" by blast
        from s nv obtain d where d: "ds n = Some d" "\<forall>x \<in> H. d + h n \<le> fst x + h (snd x)"
          unfolding inv_settled_def by blast
        from b nv d have "d + h n \<le> c + h u" unfolding inv_bound_def by fastforce
        with hu have "d + h n \<le> ?cand + h v" by simp
        with d ne show "\<exists>d. (ds(v \<mapsto> ?cand)) n = Some d \<and>
            (\<forall>x \<in> insert (?cand, v) H. d + h n \<le> fst x + h (snd x))" by simp
      qed
      have b': "inv_bound h ds' vis (c + h u)"
        using b vn unfolding inv_bound_def new by (metis fun_upd_other)
      have r': "inv_relaxed EG ac ds' vis (\<lambda>w x. w = u \<longrightarrow> x \<in> insert v D)"
        unfolding inv_relaxed_def
      proof (intro ballI impI)
        fix w x assume a: "w \<in> vis" "x \<in> set (successors EG w)" "\<not> skip_closed EG ac x"
          "w = u \<longrightarrow> x \<in> insert v D"
        from a vn have wv: "w \<noteq> v" by blast
        show "\<exists>dw dv. ds' w = Some dw \<and> ds' x = Some dv \<and> dv \<le> dw + turn_cost EG w x + enode_travel_time EG x"
        proof (cases "w = u \<and> x = v")
          case True
          with du wv show ?thesis by (simp add: new)
        next
          case False
          with a have "w = u \<longrightarrow> x \<in> D" by blast
          with r a obtain dw dv where o: "ds w = Some dw" "ds x = Some dv"
            "dv \<le> dw + turn_cost EG w x + enode_travel_time EG x"
            unfolding inv_relaxed_def by blast
          show ?thesis
          proof (cases "x = v")
            case True
            with o old[of dv] wv show ?thesis by (simp add: new)
          next
            case False
            with o wv show ?thesis by (simp add: new)
          qed
        qed
      qed
      have sd': "inv_seeds EG ac S ds'"
        unfolding inv_seeds_def
      proof (intro ballI impI)
        fix n assume a: "n \<in> set S" "\<not> skip_closed EG ac n"
        with sd obtain d where d: "ds n = Some d" "d \<le> enode_travel_time EG n"
          unfolding inv_seeds_def by blast
        show "\<exists>d. ds' n = Some d \<and> d \<le> enode_travel_time EG n"
        proof (cases "n = v")
          case True
          with d old[of d] show ?thesis by (simp add: new)
        next
          case False
          with d show ?thesis by (simp add: new)
        qed
      qed
      have du': "ds' u = Some c" using du uv vn by (auto simp: new)
      from e' q' s' b' r' sd' t du' uv show ?thesis by (simp add: opt_mid_def)
    qed
  qed
qed

lemma opt_mid_fold:
  assumes mid: "opt_mid EG ac h S T u c D H ds vis"
    and vs: "set vs \<subseteq> set (successors EG u)"
    and mono: "mono_h EG ac h"
    and step: "fold (abs_relax EG ac (turn_cost EG) c u) vs (H, ds, pv) = (H', ds', pv')"
  shows "opt_mid EG ac h S T u c (set vs \<union> D) H' ds' vis"
  using mid vs step
proof (induction vs arbitrary: D H ds pv)
  case Nil
  then show ?case by simp
next
  case (Cons v vs)
  obtain H1 ds1 pv1 where s1: "abs_relax EG ac (turn_cost EG) c u v (H, ds, pv) = (H1, ds1, pv1)"
    by (cases "abs_relax EG ac (turn_cost EG) c u v (H, ds, pv)") auto
  from Cons.prems(2) have v: "v \<in> set (successors EG u)" and vs: "set vs \<subseteq> set (successors EG u)" by auto
  from opt_mid_relax[OF Cons.prems(1) v mono s1]
  have m1: "opt_mid EG ac h S T u c (insert v D) H1 ds1 vis" .
  from Cons.prems(3) s1 have "fold (abs_relax EG ac (turn_cost EG) c u) vs (H1, ds1, pv1) = (H', ds', pv')"
    by simp
  from Cons.IH[OF m1 vs this] show ?case by simp
qed

lemma opt_mid_done:
  assumes "opt_mid EG ac h S T u c D H ds vis" and "set (successors EG u) \<subseteq> D"
  shows "opt_inv EG ac h S T H ds vis"
proof -
  from assms(1) have r: "inv_relaxed EG ac ds vis (\<lambda>w v. w = u \<longrightarrow> v \<in> D)"
    by (simp add: opt_mid_def)
  have "inv_relaxed EG ac ds vis (\<lambda>w v. True)"
    unfolding inv_relaxed_def
  proof (intro ballI impI)
    fix w v assume a: "w \<in> vis" "v \<in> set (successors EG w)" "\<not> skip_closed EG ac v"
    with assms(2) have "w = u \<longrightarrow> v \<in> D" by blast
    with r a show "\<exists>dw dv. ds w = Some dw \<and> ds v = Some dv \<and>
        dv \<le> dw + turn_cost EG w v + enode_travel_time EG v"
      unfolding inv_relaxed_def by blast
  qed
  with assms(1) show ?thesis by (simp add: opt_mid_def opt_inv_def)
qed

text \<open>One expansion: pop, settle, relax all successors.\<close>

lemma opt_inv_expand:
  assumes inv: "opt_inv EG ac h S T H ds vis"
    and x: "(c, u) \<in> H" and least: "\<forall>y \<in> H. c + h u \<le> fst y + h (snd y)"
    and fresh: "\<not> gt_get c (ds u)" and nt: "u \<notin> set T"
    and sub: "H1 \<subseteq> H" and rest: "H \<subseteq> insert (c, u) H1"
    and mono: "mono_h EG ac h"
    and step: "fold (abs_relax EG ac (turn_cost EG) c u) (successors EG u) (H1, ds, pv) = (H', ds', pv')"
  shows "opt_inv EG ac h S T H' ds' (insert u vis)"
proof -
  from opt_inv_pop[OF inv x least fresh nt sub rest]
  have "opt_mid EG ac h S T u c {} H1 ds (insert u vis)" .
  from opt_mid_fold[OF this _ mono step] have
    "opt_mid EG ac h S T u c (set (successors EG u) \<union> {}) H' ds' (insert u vis)" by simp
  then show ?thesis by (rule opt_mid_done) simp
qed

subsection \<open>Seeding\<close>

lemma seed_inv_step:
  assumes "seed_inv EG H ds" and "abs_seed EG ac en (H, ds, pv) = (H', ds', pv')"
  shows "seed_inv EG H' ds'"
proof (cases "skip_closed EG ac en")
  case True
  with assms show ?thesis by (simp add: abs_seed_def)
next
  case False
  let ?t = "enode_travel_time EG en"
  from False assms(2) have new: "H' = insert (?t, en) H" "ds' = ds(en \<mapsto> ?t)"
    by (simp_all add: abs_seed_def)
  from assms(1) have a: "\<forall>x \<in> H. ds (snd x) = Some (fst x) \<and> fst x = enode_travel_time EG (snd x)"
    and b: "\<forall>n d. ds n = Some d \<longrightarrow> (d, n) \<in> H" by (simp_all add: seed_inv_def)
  have "\<forall>x \<in> H'. ds' (snd x) = Some (fst x) \<and> fst x = enode_travel_time EG (snd x)"
  proof
    fix x assume "x \<in> H'"
    then consider "x = (?t, en)" | "x \<in> H" unfolding new by blast
    then show "ds' (snd x) = Some (fst x) \<and> fst x = enode_travel_time EG (snd x)"
    proof cases
      case 1 then show ?thesis by (simp add: new)
    next
      case 2
      with a have "ds (snd x) = Some (fst x)" "fst x = enode_travel_time EG (snd x)" by blast+
      then show ?thesis by (simp add: new)
    qed
  qed
  moreover have "\<forall>n d. ds' n = Some d \<longrightarrow> (d, n) \<in> H'"
  proof (intro allI impI)
    fix n d assume d: "ds' n = Some d"
    show "(d, n) \<in> H'"
    proof (cases "n = en")
      case True with d show ?thesis by (simp add: new)
    next
      case False
      with d have "ds n = Some d" by (simp add: new)
      with b have "(d, n) \<in> H" by blast
      then show ?thesis by (simp add: new)
    qed
  qed
  ultimately show ?thesis by (simp add: seed_inv_def)
qed

lemma abs_seed_known:
  assumes "abs_seed EG ac en (H, ds, pv) = (H', ds', pv')"
  shows "ds n \<noteq> None \<longrightarrow> ds' n \<noteq> None" and "\<not> skip_closed EG ac en \<longrightarrow> ds' en \<noteq> None"
  using assms by (auto simp: abs_seed_def split: if_splits)

lemma seed_inv_fold:
  assumes "seed_inv EG H ds" and "fold (abs_seed EG ac) S (H, ds, pv) = (H', ds', pv')"
  shows "seed_inv EG H' ds' \<and> (\<forall>n. ds n \<noteq> None \<longrightarrow> ds' n \<noteq> None) \<and>
         (\<forall>n \<in> set S. \<not> skip_closed EG ac n \<longrightarrow> ds' n \<noteq> None)"
  using assms
proof (induction S arbitrary: H ds pv)
  case Nil
  then show ?case by simp
next
  case (Cons en S)
  obtain H1 ds1 pv1 where s1: "abs_seed EG ac en (H, ds, pv) = (H1, ds1, pv1)"
    by (cases "abs_seed EG ac en (H, ds, pv)") auto
  from Cons.prems(2) s1 have f: "fold (abs_seed EG ac) S (H1, ds1, pv1) = (H', ds', pv')" by simp
  from Cons.IH[OF seed_inv_step[OF Cons.prems(1) s1] f]
  have ih: "seed_inv EG H' ds'" "\<forall>n. ds1 n \<noteq> None \<longrightarrow> ds' n \<noteq> None"
    "\<forall>n \<in> set S. \<not> skip_closed EG ac n \<longrightarrow> ds' n \<noteq> None" by blast+
  from abs_seed_known[OF s1] ih(2) have "\<forall>n. ds n \<noteq> None \<longrightarrow> ds' n \<noteq> None"
    and "\<not> skip_closed EG ac en \<longrightarrow> ds' en \<noteq> None" by blast+
  with ih show ?case by auto
qed

lemma opt_inv_init:
  assumes "fold (abs_seed EG ac) S ({}, Map.empty, Map.empty) = (H, ds, pv)"
  shows "opt_inv EG ac h S T H ds {}"
proof -
  have "seed_inv EG {} Map.empty" by (simp add: seed_inv_def)
  from seed_inv_fold[OF this assms] have si: "seed_inv EG H ds"
    and k: "\<forall>n \<in> set S. \<not> skip_closed EG ac n \<longrightarrow> ds n \<noteq> None" by blast+
  from si have a: "\<forall>x \<in> H. ds (snd x) = Some (fst x) \<and> fst x = enode_travel_time EG (snd x)"
    and b: "\<forall>n d. ds n = Some d \<longrightarrow> (d, n) \<in> H" by (simp_all add: seed_inv_def)
  have e: "inv_entries H ds" unfolding inv_entries_def using a by auto
  have q: "inv_queued H ds {}" unfolding inv_queued_def using b by blast
  have sd: "inv_seeds EG ac S ds"
    unfolding inv_seeds_def
  proof (intro ballI impI)
    fix n assume "n \<in> set S" "\<not> skip_closed EG ac n"
    with k obtain d where d: "ds n = Some d" by blast
    with b have "(d, n) \<in> H" by blast
    with a have "d = enode_travel_time EG n" by fastforce
    with d show "\<exists>d. ds n = Some d \<and> d \<le> enode_travel_time EG n" by simp
  qed
  from e q sd show ?thesis by (simp add: opt_inv_def inv_settled_def inv_relaxed_def)
qed

subsection \<open>Paths and the lower bound\<close>

lemma successors_iff: "v \<in> set (successors EG u) \<longleftrightarrow> (u, v) \<in> set (eg_edges EG)"
  by (force simp: successors_def)


lemma mono_h_zero:
  assumes "nonneg_costs EG" and "wf_graph EG"
  shows "mono_h EG ac (\<lambda>_. 0)"
  unfolding mono_h_def
proof (intro allI impI)
  fix u v assume "v \<in> set (successors EG u)"
  then have e: "(u, v) \<in> set (eg_edges EG)" by (simp add: successors_iff)
  with assms(1) have "0 \<le> turn_cost EG u v" by (fastforce simp: nonneg_costs_def list_all_iff)
  moreover from e assms(2) have "v \<in> set (eg_nodes EG)" by (fastforce simp: wf_graph_def list_all_iff)
  with assms(1) have "0 \<le> enode_travel_time EG v" by (simp add: nonneg_costs_def list_all_iff)
  ultimately show "0 \<le> turn_cost EG u v + enode_travel_time EG v + 0" by simp
qed

lemma passes_filter_iff: "passes_filter EG ac p \<longleftrightarrow> (\<forall>n \<in> set p. \<not> skip_closed EG ac n)"
  by (simp add: passes_filter_def list_all_iff)

lemma h_along_path:
  assumes mono: "mono_h EG ac h"
  shows "chain EG (a # q) \<Longrightarrow> passes_filter EG ac (a # q) \<Longrightarrow>
         h a \<le> path_cost EG (a # q) - enode_travel_time EG a + h (last (a # q))"
proof (induction q arbitrary: a)
  case Nil
  then show ?case by simp
next
  case (Cons b q)
  from Cons.prems have ch: "chain EG (b # q)" and pf: "passes_filter EG ac (b # q)"
    and e: "b \<in> set (successors EG a)" and ub: "\<not> skip_closed EG ac b"
    by (simp_all add: passes_filter_iff)
  from mono e ub have "h a \<le> turn_cost EG a b + enode_travel_time EG b + h b"
    unfolding mono_h_def by blast
  with Cons.IH[OF ch pf] show ?case by simp
qed

lemma path_bound:
  assumes inv: "opt_inv EG ac h S T H ds vis" and mono: "mono_h EG ac h"
  shows "chain EG (a # q) \<Longrightarrow> passes_filter EG ac (a # q) \<Longrightarrow> ds a = Some d \<Longrightarrow> d \<le> B \<Longrightarrow>
         last (a # q) \<notin> vis \<Longrightarrow>
         \<exists>x \<in> H. fst x + h (snd x) \<le> B + (path_cost EG (a # q) - enode_travel_time EG a) + h (last (a # q))"
proof (induction q arbitrary: a d B)
  case Nil
  from Nil.prems have "a \<notin> vis" by simp
  with inv Nil.prems(3) have "(d, a) \<in> H" unfolding opt_inv_def inv_queued_def by blast
  moreover have "d + h a \<le> B + (path_cost EG [a] - enode_travel_time EG a) + h (last [a])"
    using Nil.prems(4) by simp
  ultimately show ?case by force
next
  case (Cons b q)
  from Cons.prems have ch: "chain EG (b # q)" and pf: "passes_filter EG ac (b # q)"
    and e: "b \<in> set (successors EG a)" and ub: "\<not> skip_closed EG ac b"
    by (simp_all add: passes_filter_iff)
  show ?case
  proof (cases "a \<in> vis")
    case False
    with inv Cons.prems(3) have "(d, a) \<in> H" unfolding opt_inv_def inv_queued_def by blast
    moreover have "d + h a \<le> B + (path_cost EG (a # b # q) - enode_travel_time EG a) + h (last (a # b # q))"
      using h_along_path[OF mono Cons.prems(1,2)] Cons.prems(4) by simp
    ultimately show ?thesis by force
  next
    case True
    with inv e ub obtain dw db where o: "ds a = Some dw" "ds b = Some db"
      "db \<le> dw + turn_cost EG a b + enode_travel_time EG b"
      unfolding opt_inv_def inv_relaxed_def by blast
    with Cons.prems(3,4) have db: "db \<le> B + turn_cost EG a b + enode_travel_time EG b" by simp
    from Cons.prems(5) have "last (b # q) \<notin> vis" by simp
    from Cons.IH[OF ch pf o(2) db this] obtain x where x: "x \<in> H"
      "fst x + h (snd x) \<le> B + turn_cost EG a b + enode_travel_time EG b +
          (path_cost EG (b # q) - enode_travel_time EG b) + h (last (b # q))" by blast
    then have "fst x + h (snd x) \<le> B + (path_cost EG (a # b # q) - enode_travel_time EG a) + h (last (a # b # q))"
      by simp
    with x(1) show ?thesis by blast
  qed
qed

text \<open>
  Under the invariant, every path through the filter from a seed to a target has a queue
  entry of priority at most its cost.
\<close>

lemma search_path_bound:
  assumes inv: "opt_inv EG ac h S T H ds vis" and mono: "mono_h EG ac h"
    and p: "graph_path EG S T p" and pf: "passes_filter EG ac p"
  shows "\<exists>x \<in> H. fst x + h (snd x) \<le> path_cost EG p + h (last p)"
proof -
  from p obtain a q where pq: "p = a # q" by (cases p) (auto simp: graph_path_def)
  from p pq have a: "a \<in> set S" and l: "last (a # q) \<in> set T" and ch: "chain EG (a # q)"
    by (simp_all add: graph_path_def)
  from pf pq have ua: "\<not> skip_closed EG ac a" by (simp add: passes_filter_iff)
  from inv a ua obtain d where d: "ds a = Some d" "d \<le> enode_travel_time EG a"
    unfolding opt_inv_def inv_seeds_def by blast
  from inv l have nl: "last (a # q) \<notin> vis" unfolding opt_inv_def by blast
  from path_bound[OF inv mono ch pf[unfolded pq] d nl] show ?thesis unfolding pq by simp
qed

subsection \<open>Every recorded cost is the cost of a path\<close>

lemma snd_inv_shrink:
  assumes "snd_inv R (H, ds, pv)" and "H' \<subseteq> H"
  shows "snd_inv R (H', ds, pv)"
  using assms by (unfold snd_inv_def prod.case) blast

lemma snd_inv_entry:
  assumes "snd_inv R (H, ds, pv)" and "(c, u) \<in> H"
  shows "R u c"
  using assms by (unfold snd_inv_def prod.case) fastforce


lemma snd_inv_add:
  assumes inv: "snd_inv R (H, ds, pv)" and r: "R v c"
  shows "snd_inv R (insert (c, v) H, ds(v \<mapsto> c), pv')"
proof -
  from inv have a: "\<forall>n g. ds n = Some g \<longrightarrow> R n g" and b: "\<forall>x \<in> H. R (snd x) (fst x)"
    by (unfold snd_inv_def prod.case) blast+
  have "\<forall>n g. (ds(v \<mapsto> c)) n = Some g \<longrightarrow> R n g"
  proof (intro allI impI)
    fix n g assume "(ds(v \<mapsto> c)) n = Some g"
    then show "R n g" using a[rule_format, of n g] r by (cases "n = v") simp_all
  qed
  moreover have "\<forall>x \<in> insert (c, v) H. R (snd x) (fst x)" using b r by auto
  ultimately show ?thesis by (unfold snd_inv_def prod.case) blast
qed

lemma snd_inv_seed:
  assumes inv: "snd_inv R A" and r: "\<not> skip_closed EG ac en \<longrightarrow> R en (enode_travel_time EG en)"
  shows "snd_inv R (abs_seed EG ac en A)"
proof -
  obtain H ds pv where A: "A = (H, ds, pv)" by (cases A) auto
  show ?thesis
  proof (cases "skip_closed EG ac en")
    case True with inv show ?thesis by (simp add: abs_seed_def A)
  next
    case False
    with r have "R en (enode_travel_time EG en)" by simp
    from snd_inv_add[OF inv[unfolded A] this] False show ?thesis by (simp add: abs_seed_def A)
  qed
qed

lemma snd_inv_fold_seed:
  assumes "snd_inv R A" and "\<forall>en \<in> set S. \<not> skip_closed EG ac en \<longrightarrow> R en (enode_travel_time EG en)"
  shows "snd_inv R (fold (abs_seed EG ac) S A)"
  using assms
proof (induction S arbitrary: A)
  case Nil then show ?case by simp
next
  case (Cons en S)
  have "snd_inv R (abs_seed EG ac en A)" using Cons.prems by (intro snd_inv_seed) simp_all
  from Cons.IH[OF this] Cons.prems(2) show ?case by simp
qed

lemma snd_inv_relax:
  assumes inv: "snd_inv R A"
    and r: "\<not> skip_closed EG ac v \<longrightarrow> R v (c + tc u v + enode_travel_time EG v)"
  shows "snd_inv R (abs_relax EG ac tc c u v A)"
proof -
  obtain H ds pv where A: "A = (H, ds, pv)" by (cases A) auto
  show ?thesis
  proof (cases "\<not> skip_closed EG ac v \<and> lt_get (c + tc u v + enode_travel_time EG v) (ds v)")
    case False with inv show ?thesis by (auto simp: abs_relax_def A)
  next
    case True
    with r have "R v (c + tc u v + enode_travel_time EG v)" by simp
    from snd_inv_add[OF inv[unfolded A] this] True show ?thesis by (simp add: abs_relax_def A)
  qed
qed

lemma snd_inv_fold_relax:
  assumes "snd_inv R A"
    and "\<forall>v \<in> set vs. \<not> skip_closed EG ac v \<longrightarrow> R v (c + tc u v + enode_travel_time EG v)"
  shows "snd_inv R (fold (abs_relax EG ac tc c u) vs A)"
  using assms
proof (induction vs arbitrary: A)
  case Nil then show ?case by simp
next
  case (Cons v vs)
  have "snd_inv R (abs_relax EG ac tc c u v A)" using Cons.prems by (intro snd_inv_relax) simp_all
  from Cons.IH[OF this] Cons.prems(2) show ?case by simp
qed

lemma snd_inv_empty: "snd_inv R ({}, Map.empty, Map.empty)"
  by (simp add: snd_inv_def)

lemma chain_snoc:
  "p \<noteq> [] \<Longrightarrow> chain EG p \<Longrightarrow> v \<in> set (successors EG (last p)) \<Longrightarrow> chain EG (p @ [v])"
proof (induction p rule: chain.induct)
  case (1 EG) then show ?case by simp
next
  case (2 EG a) then show ?case by simp
next
  case (3 EG a b rest) then show ?case by simp
qed

lemma path_cost_snoc:
  "p \<noteq> [] \<Longrightarrow> path_cost EG (p @ [v]) = path_cost EG p + turn_cost EG (last p) v + enode_travel_time EG v"
proof (induction p rule: path_cost.induct)
  case (1 EG) then show ?case by simp
next
  case (2 EG a) then show ?case by simp
next
  case (3 EG a b rest) then show ?case by simp
qed

lemma fwd_cost_seed:
  assumes "en \<in> set S" and "\<not> skip_closed EG ac en"
  shows "fwd_cost EG ac S en (enode_travel_time EG en)"
  unfolding fwd_cost_def using assms
  by (intro exI[of _ "[en]"]) (simp add: passes_filter_def)


lemma fwd_cost_step:
  assumes "fwd_cost EG ac S u c" and "v \<in> set (successors EG u)" and "\<not> skip_closed EG ac v"
  shows "fwd_cost EG ac S v (c + turn_cost EG u v + enode_travel_time EG v)"
proof -
  from assms(1) obtain p where p: "p \<noteq> []" "hd p \<in> set S" "last p = u" "chain EG p"
    "passes_filter EG ac p" "path_cost EG p = c" unfolding fwd_cost_def by blast
  have "p @ [v] \<noteq> []" "hd (p @ [v]) \<in> set S" "last (p @ [v]) = v" using p by simp_all
  moreover have "chain EG (p @ [v])" using chain_snoc[OF p(1,4)] assms(2) p(3) by simp
  moreover have "passes_filter EG ac (p @ [v])" using p(5) assms(3) by (simp add: passes_filter_def)
  moreover have "path_cost EG (p @ [v]) = c + turn_cost EG u v + enode_travel_time EG v"
    using path_cost_snoc[OF p(1)] p(3,6) by simp
  ultimately show ?thesis unfolding fwd_cost_def by blast
qed


subsection \<open>dijkstra\_route returns the least cost\<close>

lemma cap_reached_None [simp]: "\<not> cap_reached None k"
  by (simp add: cap_reached_def)

lemma dijkstra_opt_Continue:
  assumes inv: "opt_inv EG ac (\<lambda>_. 0) S T (set (s_heap s)) (s_dist s) (s_visited s)"
    and mono: "mono_h EG ac (\<lambda>_. 0)"
    and it: "dijkstra_iter EG T ac mv s = Continue s'"
  shows "opt_inv EG ac (\<lambda>_. 0) S T (set (s_heap s')) (s_dist s') (s_visited s')"
proof -
  from it obtain c u rest where pop: "heappop (s_heap s) = Some ((c, u), rest)"
    by (auto simp: dijkstra_iter_def split: option.splits)
  note hp = heappop_Some[OF pop]
  from it pop consider
    (stale) "gt_get c (s_dist s u)" "s' = s\<lparr>s_heap := rest\<rparr>"
    | (expand) "\<not> gt_get c (s_dist s u)" "u \<notin> set T"
       "s' = fold (dijkstra_relax EG ac c u) (successors EG u)
               (s\<lparr>s_heap := rest, s_expanded := s_expanded s + 1, s_visited := insert u (s_visited s)\<rparr>)"
    by (auto simp: dijkstra_iter_def split: if_splits)
  then show ?thesis
  proof cases
    case stale
    from stale(1) have "s_dist s u \<noteq> Some c" by (auto simp: gt_get_iff)
    then have "snd (c, u) \<in> s_visited s \<or> s_dist s (snd (c, u)) \<noteq> Some (fst (c, u))" by simp
    from opt_inv_drop[OF inv hp(2) hp(3) this] show ?thesis by (simp add: stale(2))
  next
    case expand
    have least: "\<forall>y \<in> set (s_heap s). c + 0 \<le> fst y + 0"
    proof
      fix y assume "y \<in> set (s_heap s)"
      with hp(4) have "(c, u) \<le> y" by blast
      then show "c + 0 \<le> fst y + 0" by (cases y) (auto simp: less_eq_prod_def)
    qed
    have step: "fold (abs_relax EG ac (turn_cost EG) c u) (successors EG u) (set rest, s_dist s, s_prev s)
                 = (set (s_heap s'), s_dist s', s_prev s')"
    proof -
      have "abs_d s' = fold (abs_relax EG ac (turn_cost EG) c u) (successors EG u)
                (abs_d (s\<lparr>s_heap := rest, s_expanded := s_expanded s + 1, s_visited := insert u (s_visited s)\<rparr>))"
        unfolding expand(3) by (rule abs_d_fold_relax)
      moreover have "abs_d s' = (set (s_heap s'), s_dist s', s_prev s')" by (simp add: abs_d_def)
      moreover have "abs_d (s\<lparr>s_heap := rest, s_expanded := s_expanded s + 1, s_visited := insert u (s_visited s)\<rparr>)
                = (set rest, s_dist s, s_prev s)" by (simp add: abs_d_def)
      ultimately show ?thesis by simp
    qed
    have v: "s_visited s' = insert u (s_visited s)" by (simp add: expand(3))
    from opt_inv_expand[OF inv hp(1) least expand(1,2) hp(2) hp(3) mono step]
    show ?thesis by (simp add: v)
  qed
qed

lemma dijkstra_snd_Continue:
  assumes inv: "snd_inv (fwd_cost EG ac S) (abs_d s)"
    and it: "dijkstra_iter EG T ac mv s = Continue s'"
  shows "snd_inv (fwd_cost EG ac S) (abs_d s')"
proof -
  from it obtain c u rest where pop: "heappop (s_heap s) = Some ((c, u), rest)"
    by (auto simp: dijkstra_iter_def split: option.splits)
  note hp = heappop_Some[OF pop]
  from inv have inv': "snd_inv (fwd_cost EG ac S) (set (s_heap s), s_dist s, s_prev s)"
    by (simp add: abs_d_def)
  have sh: "snd_inv (fwd_cost EG ac S) (set rest, s_dist s, s_prev s)"
    using snd_inv_shrink[OF inv' hp(2)] .
  have ru: "fwd_cost EG ac S u c" using snd_inv_entry[OF inv' hp(1)] .
  from it pop consider
    (stale) "s' = s\<lparr>s_heap := rest\<rparr>"
    | (expand) "s' = fold (dijkstra_relax EG ac c u) (successors EG u)
                      (s\<lparr>s_heap := rest, s_expanded := s_expanded s + 1, s_visited := insert u (s_visited s)\<rparr>)"
    by (auto simp: dijkstra_iter_def split: if_splits)
  then show ?thesis
  proof cases
    case stale
    with sh show ?thesis by simp
  next
    case expand
    have "\<forall>v \<in> set (successors EG u). \<not> skip_closed EG ac v \<longrightarrow>
            fwd_cost EG ac S v (c + turn_cost EG u v + enode_travel_time EG v)"
      using fwd_cost_step[OF ru] by blast
    from snd_inv_fold_relax[where tc = "turn_cost EG" and c = c and u = u, OF sh this] show ?thesis
      unfolding expand abs_d_fold_relax by simp
  qed
qed

text \<open>
  What the loop of \<open>dijkstra_route\<close> leaves behind: a target with the cost of a path to it
  that no path through the filter undercuts, or, when it ran without a cap, no target because
  there is no such path.
\<close>

lemma dijkstra_Break:
  assumes inv: "opt_inv EG ac (\<lambda>_. 0) S T (set (s_heap s)) (s_dist s) (s_visited s)"
    and snd: "snd_inv (fwd_cost EG ac S) (abs_d s)"
    and b: "s_best_target s = None"
    and mono: "mono_h EG ac (\<lambda>_. 0)"
    and it: "dijkstra_iter EG T ac mv s = Break s'"
    and p: "graph_path EG S T p" and pf: "passes_filter EG ac p"
  shows "(s_best_target s' = None \<longrightarrow> mv \<noteq> None) \<and>
         (\<forall>t. s_best_target s' = Some t \<longrightarrow>
            (\<exists>c. s_best_cost s' = Fin c \<and> c \<le> path_cost EG p \<and> t \<in> set T \<and> fwd_cost EG ac S t c))"
proof (cases "heappop (s_heap s)")
  case None
  then have "set (s_heap s) = {}" by (simp add: heappop_None)
  with search_path_bound[OF inv mono p pf] show ?thesis by simp
next
  case (Some a)
  then obtain c u rest where pop: "heappop (s_heap s) = Some ((c, u), rest)" by (cases a) auto
  note hp = heappop_Some[OF pop]
  from snd have snd': "snd_inv (fwd_cost EG ac S) (set (s_heap s), s_dist s, s_prev s)"
    by (simp add: abs_d_def)
  from it pop consider
    (cap) "cap_reached mv (s_expanded s)" "s' = s\<lparr>s_heap := rest\<rparr>"
    | (target) "u \<in> set T" "s' = s\<lparr>s_heap := rest, s_expanded := s_expanded s + 1,
                       s_best_target := Some u, s_best_cost := Fin c\<rparr>"
    by (auto simp: dijkstra_iter_def split: if_splits)
  then show ?thesis
  proof cases
    case cap
    from cap(1) have "mv \<noteq> None" by (cases mv) simp_all
    with cap b show ?thesis by simp
  next
    case target
    from search_path_bound[OF inv mono p pf] obtain x where x: "x \<in> set (s_heap s)"
      "fst x \<le> path_cost EG p" by auto
    from hp(4) x(1) have "(c, u) \<le> x" by blast
    then have "c \<le> fst x" by (cases x) (auto simp: less_eq_prod_def)
    with x(2) have "c \<le> path_cost EG p" by simp
    moreover have "fwd_cost EG ac S u c" using snd_inv_entry[OF snd' hp(1)] .
    ultimately show ?thesis using target by simp
  qed
qed

lemma dijkstra_seed_visited [simp]: "s_visited (dijkstra_seed EG ac e s) = s_visited s"
  by (simp add: dijkstra_seed_def Let_def)

lemma fold_dijkstra_seed_visited [simp]: "s_visited (fold (dijkstra_seed EG ac) es s) = s_visited s"
  by (induction es arbitrary: s) simp_all

lemma astar_seed_visited [simp]: "s_visited (astar_seed EG ac h e s) = s_visited s"
  by (simp add: astar_seed_def Let_def)

lemma fold_astar_seed_visited [simp]: "s_visited (fold (astar_seed EG ac h) es s) = s_visited s"
  by (induction es arbitrary: s) simp_all

lemma init_state_visited [simp]: "s_visited init_state = {}"
  by (simp add: init_state_def)

lemma fwd_cost_path:
  assumes "fwd_cost EG ac S t c" and "t \<in> set T"
  shows "\<exists>q. graph_path EG S T q \<and> passes_filter EG ac q \<and> path_cost EG q = c"
  using assms unfolding fwd_cost_def graph_path_def by blast

lemma dijkstra_Break_sound:
  assumes snd: "snd_inv (fwd_cost EG ac S) (abs_d s)"
    and b: "s_best_target s = None"
    and it: "dijkstra_iter EG T ac mv s = Break s'"
  shows "\<forall>t. s_best_target s' = Some t \<longrightarrow>
            (\<exists>c. s_best_cost s' = Fin c \<and> t \<in> set T \<and> fwd_cost EG ac S t c)"
proof (cases "heappop (s_heap s)")
  case None
  with it b show ?thesis by (simp add: dijkstra_iter_def)
next
  case (Some a)
  then obtain c u rest where pop: "heappop (s_heap s) = Some ((c, u), rest)" by (cases a) auto
  note hp = heappop_Some[OF pop]
  from snd have snd': "snd_inv (fwd_cost EG ac S) (set (s_heap s), s_dist s, s_prev s)"
    by (simp add: abs_d_def)
  from it pop consider
    (cap) "s' = s\<lparr>s_heap := rest\<rparr>"
    | (target) "u \<in> set T" "s' = s\<lparr>s_heap := rest, s_expanded := s_expanded s + 1,
                       s_best_target := Some u, s_best_cost := Fin c\<rparr>"
    by (auto simp: dijkstra_iter_def split: if_splits)
  then show ?thesis
  proof cases
    case cap
    with b show ?thesis by simp
  next
    case target
    have "fwd_cost EG ac S u c" using snd_inv_entry[OF snd' hp(1)] .
    with target show ?thesis by simp
  qed
qed

lemma dijkstra_done:
  assumes inv: "opt_inv EG ac (\<lambda>_. 0) S T (set (s_heap s)) (s_dist s) (s_visited s)"
    and snd: "snd_inv (fwd_cost EG ac S) (abs_d s)"
    and b: "s_best_target s = None"
    and mono: "mono_h EG ac (\<lambda>_. 0)"
    and it: "dijkstra_iter EG T ac mv s = Break s'"
  shows "search_done EG ac S T mv s'"
proof (cases "s_best_target s'")
  case None
  have "mv = None \<longrightarrow> \<not> (\<exists>p. graph_path EG S T p \<and> passes_filter EG ac p)"
  proof (intro impI notI)
    assume mv: "mv = None" and "\<exists>p. graph_path EG S T p \<and> passes_filter EG ac p"
    then obtain p where "graph_path EG S T p" "passes_filter EG ac p" by blast
    from dijkstra_Break[OF inv snd b mono it this] None mv show False by simp
  qed
  with None show ?thesis by (simp add: search_done_def)
next
  case (Some t)
  from dijkstra_Break_sound[OF snd b it] Some obtain c where c: "s_best_cost s' = Fin c"
    "t \<in> set T" "fwd_cost EG ac S t c" by blast
  have "\<forall>p. graph_path EG S T p \<and> passes_filter EG ac p \<longrightarrow> c \<le> path_cost EG p"
  proof (intro allI impI)
    fix p assume "graph_path EG S T p \<and> passes_filter EG ac p"
    then have "graph_path EG S T p" "passes_filter EG ac p" by simp_all
    from dijkstra_Break[OF inv snd b mono it this] Some c(1) show "c \<le> path_cost EG p" by simp
  qed
  with fwd_cost_path[OF c(3,2)] have "least_cost EG ac S T c" by (simp add: least_cost_def)
  with Some c(1) show ?thesis by (simp add: search_done_def)
qed

text \<open>From the state after the loop to the returned dictionary.\<close>

lemma build_result_done:
  assumes d: "search_done EG ac S T mv s" and res: "build_result s = Some r"
  shows "(route_enodes r = None \<longrightarrow> cost r = PInf \<and>
            (mv = None \<longrightarrow> \<not> (\<exists>p. graph_path EG S T p \<and> passes_filter EG ac p))) \<and>
         (route_enodes r \<noteq> None \<longrightarrow> (\<exists>c. cost r = Fin c \<and> least_cost EG ac S T c))"
proof (cases "s_best_target s")
  case None
  with res have "r = no_route (s_expanded s)" by (simp add: build_result_def)
  with d None show ?thesis by (simp add: search_done_def no_route_def)
next
  case (Some t)
  with res obtain path where r: "route_enodes r = Some (rev path)" "cost r = s_best_cost s"
    by (auto simp: build_result_def split: option.splits)
  with d Some show ?thesis by (simp add: search_done_def)
qed

lemma dijkstra_search_least:
  assumes mono: "mono_h EG ac (\<lambda>_. 0)" and res: "dijkstra_search EG S T ac mv = Some r"
  shows "(route_enodes r = None \<longrightarrow> cost r = PInf \<and>
            (mv = None \<longrightarrow> \<not> (\<exists>p. graph_path EG S T p \<and> passes_filter EG ac p))) \<and>
         (route_enodes r \<noteq> None \<longrightarrow> (\<exists>c. cost r = Fin c \<and> least_cost EG ac S T c))"
proof -
  let ?s0 = "fold (dijkstra_seed EG ac) S init_state"
  let ?I = "\<lambda>s. opt_inv EG ac (\<lambda>_. 0) S T (set (s_heap s)) (s_dist s) (s_visited s) \<and>
                 snd_inv (fwd_cost EG ac S) (abs_d s) \<and> s_best_target s = None"
  from res obtain s where run: "while_loop (dijkstra_iter EG T ac mv) ?s0 = Some s"
    and br: "build_result s = Some r"
    by (auto simp: dijkstra_search_def split: option.splits)
  have a0: "abs_d ?s0 = fold (abs_seed EG ac) S ({}, Map.empty, Map.empty)"
    by (simp add: abs_d_fold_seed abs_d_init)
  have v0: "s_visited ?s0 = {}" by simp
  have "abs_d ?s0 = (set (s_heap ?s0), s_dist ?s0, s_prev ?s0)" by (simp add: abs_d_def)
  with a0 have "fold (abs_seed EG ac) S ({}, Map.empty, Map.empty) = (set (s_heap ?s0), s_dist ?s0, s_prev ?s0)"
    by simp
  from opt_inv_init[OF this] have o0: "opt_inv EG ac (\<lambda>_. 0) S T (set (s_heap ?s0)) (s_dist ?s0) (s_visited ?s0)"
    unfolding v0 .
  have s0: "snd_inv (fwd_cost EG ac S) (abs_d ?s0)"
    unfolding a0 using fwd_cost_seed[of _ S EG ac]
    by (intro snd_inv_fold_seed snd_inv_empty) blast
  have "search_done EG ac S T mv s"
  proof (rule while_loop_rule[OF run, where I = ?I])
    show "?I ?s0" using o0 s0 by simp
  next
    fix s s' assume "?I s" and "dijkstra_iter EG T ac mv s = Continue s'"
    then show "?I s'"
      using dijkstra_opt_Continue[of EG ac S T s mv s', OF _ mono]
        dijkstra_snd_Continue[of EG ac S s T mv s'] dijkstra_iter_Continue_best[of EG T ac mv s s'] by simp
  next
    fix s s' assume "?I s" and "dijkstra_iter EG T ac mv s = Break s'"
    then show "search_done EG ac S T mv s'"
      using dijkstra_done[of EG ac S T s mv s', OF _ _ _ mono] by simp
  qed
  from build_result_done[OF this br] show ?thesis .
qed

lemma dijkstra_route_least:
  assumes mono: "mono_h EG ac (\<lambda>_. 0)"
    and res: "dijkstra_route EG a b cs ac mv = Some (Inr r)"
    and S: "apply_constraints EG cs (enodes_from_start EG a) = Inr S"
    and T: "apply_constraints EG cs (target_nodes EG b) = Inr T"
  shows "(route_enodes r = None \<longrightarrow> cost r = PInf \<and>
            (mv = None \<and> enodes_from_start EG a \<noteq> [] \<and> target_nodes EG b \<noteq> [] \<longrightarrow>
               \<not> (\<exists>p. graph_path EG S T p \<and> passes_filter EG ac p))) \<and>
         (route_enodes r \<noteq> None \<longrightarrow> (\<exists>c. cost r = Fin c \<and> least_cost EG ac S T c))"
proof (cases "enodes_from_start EG a = [] \<or> target_nodes EG b = []")
  case True
  with res show ?thesis by (auto simp: dijkstra_route_def no_route_def)
next
  case False
  with res S T have "dijkstra_search EG S T ac mv = Some r"
    by (auto simp: dijkstra_route_def Let_def split: sum.splits)
  from dijkstra_search_least[OF mono this] show ?thesis by blast
qed

subsection \<open>A heuristic that never overestimates\<close>

text \<open>A potential that bounds the heuristic shows that the heuristic never overestimates.\<close>

lemma admissible_by_potential:
  assumes t: "list_all (\<lambda>t. h t \<le> 0) T"
    and e: "list_all (\<lambda>e. h (fst e) \<le> \<rho> (fst e) \<and>
               \<rho> (fst e) \<le> turn_cost EG (fst e) (snd e) + enode_travel_time EG (snd e) + \<rho> (snd e))
             (eg_edges EG)"
    and z: "list_all (\<lambda>t. \<rho> t = 0) T"
  shows "admissible EG ac T h"
  unfolding admissible_def
proof (intro allI impI)
  fix p assume a: "p \<noteq> [] \<and> chain EG p \<and> passes_filter EG ac p \<and> last p \<in> set T"
  then obtain n q where p: "p = n # q" by (cases p) auto
  have mono: "mono_h EG ac \<rho>"
    unfolding mono_h_def
  proof (intro allI impI)
    fix u v assume "v \<in> set (successors EG u)"
    then have "(u, v) \<in> set (eg_edges EG)" by (simp add: successors_iff)
    with e show "\<rho> u \<le> turn_cost EG u v + enode_travel_time EG v + \<rho> v"
      by (fastforce simp: list_all_iff)
  qed
  from a p have ch: "chain EG (n # q)" and pf: "passes_filter EG ac (n # q)"
    and l: "last (n # q) \<in> set T" by simp_all
  from l z have r0: "\<rho> (last (n # q)) = 0" by (simp add: list_all_iff)
  have "h n \<le> path_cost EG (n # q) - enode_travel_time EG n"
  proof (cases q)
    case Nil
    with l t show ?thesis by (simp add: list_all_iff)
  next
    case (Cons m q')
    with ch have "(n, m) \<in> set (eg_edges EG)" by (simp add: successors_iff)
    with e have "h n \<le> \<rho> n" by (fastforce simp: list_all_iff)
    with h_along_path[OF mono ch pf] r0 show ?thesis by simp
  qed
  then show "h (hd p) \<le> path_cost EG p - enode_travel_time EG (hd p)" by (simp add: p)
qed

subsection \<open>The cost that bidirectional\_astar\_route returns is at least that of some path\<close>



















section \<open>The planner\<close>

lemma plan_levels_no_route:
  "run_search EG a b flag = Some (Inr None) \<Longrightarrow>
   plan_levels EG a b vt profile flag (level # rest) = Some (Inl AttributeError)"
  by simp

text \<open>
  C1. The code does not do what the claim says: with no connecting path, each search returns
  its no-route result, \<open>_run_search\<close> returns \<open>None\<close>, and \<open>_plan_route\<close> raises
  \<open>AttributeError\<close> at \<open>res.get("route_enodes")\<close> in the first relaxation level.
\<close>

theorem plan_route_no_path_raises:
  "run_search apart 1 4 True = Some (Inr None) \<and>
   plan_route apart 1 4 ''ambulance'' 3 = Some (Inl AttributeError)"
  by (simp add: apart_def graph_defs search_defs plan_defs c_get_def)





section \<open>The cost returned by dijkstra\_route\<close>

text \<open>
  C4 as stated fails on the graph \<open>diamond\<close>: with the default \<open>allow_closed = False\<close> the
  search leaves out the closed segment \<open>(0,2,0)\<close> and returns the route over \<open>(0,1,0)\<close> at
  cost 11, while the path \<open>(0,2,0), (2,3,0)\<close> from the seed set to the target set costs 3.
  All costs of the graph are non-negative.
\<close>

theorem dijkstra_closed_shortcut_counterexample:
  "dijkstra_route diamond 0 3 None False None
     = Some (Inr \<lparr>route_nodes = Some [0, 1, 3], route_enodes = Some [(0,1,0), (1,3,0)],
                   cost = Fin 11, expanded = 2\<rparr>) \<and>
   nonneg_costs diamond \<and>
   graph_path diamond (enodes_from_start diamond 0) (target_nodes diamond 3) [(0,2,0), (2,3,0)] \<and>
   path_cost diamond [(0,2,0), (2,3,0)] = 3"
  by (simp add: diamond_def graph_defs search_defs graph_path_def nonneg_costs_def)

text \<open>
  C4, amended. When every segment travel time and every turn cost is non-negative and
  \<open>dijkstra_route\<close> returns a route, the returned cost is the cost of a path from the seed set
  to the target set (both after the constraint filter) over segments that the
  \<open>allow_closed\<close> filter lets through, and it is at most the cost of every such path. This
  holds with and without a cap on the expansions.
\<close>

theorem dijkstra_route_least_cost:
  assumes "nonneg_costs EG" and "wf_graph EG"
    and "dijkstra_route EG a b cs allow_closed max_visits = Some (Inr r)"
    and "route_enodes r \<noteq> None"
    and "apply_constraints EG cs (enodes_from_start EG a) = Inr S"
    and "apply_constraints EG cs (target_nodes EG b) = Inr T"
  shows "\<exists>c. cost r = Fin c \<and>
           (\<exists>q. graph_path EG S T q \<and> passes_filter EG allow_closed q \<and> path_cost EG q = c) \<and>
           (\<forall>p. graph_path EG S T p \<and> passes_filter EG allow_closed p \<longrightarrow> c \<le> path_cost EG p)"
  using dijkstra_route_least[OF mono_h_zero[OF assms(1,2)] assms(3,5,6)] assms(4)
  by (simp add: least_cost_def)

theorem dijkstra_route_least_cost_witness:
  "dijkstra_route detour 0 4 None False None
     = Some (Inr \<lparr>route_nodes = Some [0, 2, 1, 3, 4],
                   route_enodes = Some [(0,2,0), (2,1,0), (1,3,0), (3,4,0)],
                   cost = Fin 11, expanded = 5\<rparr>) \<and>
   graph_path detour [(0,1,0), (0,2,0)] [(3,4,0)] [(0,1,0), (1,3,0), (3,4,0)] \<and>
   passes_filter detour False [(0,1,0), (1,3,0), (3,4,0)] \<and>
   (11::real) \<le> path_cost detour [(0,1,0), (1,3,0), (3,4,0)]"
proof -
  let ?r = "\<lparr>route_nodes = Some [0, 2, 1, 3, 4],
              route_enodes = Some [(0,2,0), (2,1,0), (1,3,0), (3,4,0)],
              cost = Fin 11, expanded = 5\<rparr>"
  let ?p = "[(0,1,0), (1,3,0), (3,4,0)] :: enode list"
  have r: "dijkstra_route detour 0 4 None False None = Some (Inr ?r)"
    by (simp add: detour_def graph_defs search_defs)
  have n: "nonneg_costs detour" "wf_graph detour"
    by (simp_all add: detour_def graph_defs nonneg_costs_def wf_graph_def)
  have S: "apply_constraints detour None (enodes_from_start detour 0) = Inr [(0,1,0), (0,2,0)]"
    and T: "apply_constraints detour None (target_nodes detour 4) = Inr [(3,4,0)]"
    by (simp_all add: detour_def graph_defs search_defs)
  have p: "graph_path detour [(0,1,0), (0,2,0)] [(3,4,0)] ?p" "passes_filter detour False ?p"
    by (simp_all add: detour_def graph_defs search_defs graph_path_def passes_filter_def)
  from dijkstra_route_least_cost[OF n r _ S T] p
  have "(11::real) \<le> path_cost detour ?p" by auto
  with r p show ?thesis by blast
qed

section \<open>The cost returned by astar\_route\<close>

text \<open>
  C5 fails on the graph \<open>detour\<close> with the default speed of 30 m/s. The heuristic never
  overestimates the cost that remains to the target. \<open>dijkstra_route\<close> returns the route
  0-2-1-3-4 at its cost of 11. \<open>astar_route\<close>, called with the same graph, start node,
  target node and flags, returns the same route at cost 13: segment \<open>(1,3,0)\<close> is expanded
  at cost 7 before the way over node 2 reaches it at cost 5; the relaxation then overwrites
  its cost and its predecessor, but the \<open>visited\<close> set keeps it from being expanded again,
  so the target keeps the cost 13 computed on the first expansion. The cost that
  \<open>astar_route\<close> returns is not the cost of the route that it returns.
\<close>

theorem astar_cost_is_not_route_cost:
  "admissible detour False (target_nodes detour 4)
     (heuristic detour (v_x (eg_attr detour (3,4,0)), v_y (eg_attr detour (3,4,0))) 30) \<and>
   astar_route detour 0 4 None 30 False None
     = Some (Inr \<lparr>route_nodes = Some [0, 2, 1, 3, 4],
                   route_enodes = Some [(0,2,0), (2,1,0), (1,3,0), (3,4,0)],
                   cost = Fin 13, expanded = 5\<rparr>) \<and>
   dijkstra_route detour 0 4 None False None
     = Some (Inr \<lparr>route_nodes = Some [0, 2, 1, 3, 4],
                   route_enodes = Some [(0,2,0), (2,1,0), (1,3,0), (3,4,0)],
                   cost = Fin 11, expanded = 5\<rparr>) \<and>
   path_cost detour [(0,2,0), (2,1,0), (1,3,0), (3,4,0)] = 11"
proof -
  have "admissible detour False (target_nodes detour 4)
     (heuristic detour (v_x (eg_attr detour (3,4,0)), v_y (eg_attr detour (3,4,0))) 30)"
    by (rule admissible_by_potential[where \<rho> = detour_remaining])
       (simp_all add: detour_def graph_defs heuristic_def detour_remaining_def)
  moreover have "astar_route detour 0 4 None 30 False None
     = Some (Inr \<lparr>route_nodes = Some [0, 2, 1, 3, 4],
                   route_enodes = Some [(0,2,0), (2,1,0), (1,3,0), (3,4,0)],
                   cost = Fin 13, expanded = 5\<rparr>)"
    by (simp add: detour_def graph_defs search_defs)
  moreover have "dijkstra_route detour 0 4 None False None
     = Some (Inr \<lparr>route_nodes = Some [0, 2, 1, 3, 4],
                   route_enodes = Some [(0,2,0), (2,1,0), (1,3,0), (3,4,0)],
                   cost = Fin 11, expanded = 5\<rparr>)"
    by (simp add: detour_def graph_defs search_defs)
  moreover have "path_cost detour [(0,2,0), (2,1,0), (1,3,0), (3,4,0)] = 11"
    by (simp add: detour_def graph_defs)
  ultimately show ?thesis by blast
qed

text \<open>
  The heuristic at the first segment of the detour: 10 seconds for the 300 metres from node 2
  to node 4, and 10 seconds is what the way from there to the target costs.
\<close>

theorem astar_cost_is_not_route_cost_witness:
  "heuristic detour (v_x (eg_attr detour (3,4,0)), v_y (eg_attr detour (3,4,0))) 30 (0,2,0)
     \<le> path_cost detour [(0,2,0), (2,1,0), (1,3,0), (3,4,0)] - enode_travel_time detour (0,2,0) \<and>
   heuristic detour (v_x (eg_attr detour (3,4,0)), v_y (eg_attr detour (3,4,0))) 30 (0,2,0) = 10"
proof -
  let ?p = "[(0,2,0), (2,1,0), (1,3,0), (3,4,0)] :: enode list"
  let ?h = "heuristic detour (v_x (eg_attr detour (3,4,0)), v_y (eg_attr detour (3,4,0))) 30"
  have p: "?p \<noteq> [] \<and> chain detour ?p \<and> passes_filter detour False ?p \<and>
           last ?p \<in> set (target_nodes detour 4)"
    by (simp add: detour_def graph_defs passes_filter_def)
  from astar_cost_is_not_route_cost have "admissible detour False (target_nodes detour 4) ?h"
    by (rule conjunct1)
  then have "?p \<noteq> [] \<and> chain detour ?p \<and> passes_filter detour False ?p \<and>
           last ?p \<in> set (target_nodes detour 4)
          \<longrightarrow> ?h (hd ?p) \<le> path_cost detour ?p - enode_travel_time detour (hd ?p)"
    unfolding admissible_def by (rule spec)
  with p have "?h (hd ?p) \<le> path_cost detour ?p - enode_travel_time detour (hd ?p)" by (rule rev_mp)
  moreover have "?h (0,2,0) = 10" by (simp add: detour_def graph_defs heuristic_def)
  ultimately show ?thesis by simp
qed

section \<open>The cost returned by bidirectional\_astar\_route\<close>




end
